theory Spec2Isabelle
  imports Main "HOL-Library.Word" "HOL-Library.List_Lexorder"
begin

unbundle bit_operations_syntax

section \<open>JavaScript values used by the pack reader\<close>

text \<open>
  A Node.js \<open>Buffer\<close> is a sequence of bytes. Reading an index outside the buffer
  yields \<open>undefined\<close>, modelled as \<open>None\<close>. The bitwise operators of JavaScript
  work on 32-bit signed integers (\<open>ToInt32\<close>), and \<open>ToInt32(undefined)\<close> is 0.
  A number that may be \<open>NaN\<close> (a cursor position after adding \<open>undefined\<close>) is a
  \<open>nat option\<close>, with \<open>None\<close> for \<open>NaN\<close>.
\<close>

type_synonym byte = "8 word"
type_synonym Buffer = "byte list"

datatype error =
    ERR_OUT_OF_RANGE
  | ERR_BUFFER_OUT_OF_BOUNDS
  | UnsupportedIDX
  | UnsupportedType int
  | InflaterClosed
  | ENOENT
  | StackOverflow

definition toInt32 :: "byte option \<Rightarrow> 32 word" where
  "toInt32 b = (case b of None \<Rightarrow> 0 | Some v \<Rightarrow> ucast v)"

definition toInteger :: "nat option \<Rightarrow> int" where
  "toInteger p = (case p of None \<Rightarrow> 0 | Some n \<Rightarrow> int n)"

text \<open>\<open>TypedArray.prototype.subarray(start, stop)\<close>: negative arguments count from the
  end, both are clamped to the buffer, and an empty range gives an empty view.\<close>

definition subarray :: "Buffer \<Rightarrow> int \<Rightarrow> int \<Rightarrow> Buffer" where
  "subarray b start stop =
     (let len = int (length b);
          beginIndex = (if start < 0 then max (len + start) 0 else min start len);
          endIndex = (if stop < 0 then max (len + stop) 0 else min stop len);
          newLength = max (endIndex - beginIndex) 0
      in take (nat newLength) (drop (nat beginIndex) b))"

text \<open>\<open>source.copy(target, targetStart)\<close>: copies as much of \<open>source\<close> as fits
  into \<open>target\<close> from \<open>targetStart\<close> on and returns the number of bytes copied
  together with the updated target.\<close>

definition Buffer_copy :: "Buffer \<Rightarrow> Buffer \<Rightarrow> nat \<Rightarrow> nat \<times> Buffer" where
  "Buffer_copy source target targetStart =
     (if length target \<le> targetStart then (0, target)
      else let nb = min (length source) (length target - targetStart)
           in (nb, take targetStart target @ take nb source @ drop (targetStart + nb) target))"

text \<open>\<open>Buffer.allocUnsafe(size)\<close> raises a RangeError for a negative size. The
  contents of the new buffer are unspecified in Node.js; the model takes zeros.\<close>

definition Buffer_allocUnsafe :: "int \<Rightarrow> error + Buffer" where
  "Buffer_allocUnsafe sz =
     (if sz < 0 then Inl ERR_OUT_OF_RANGE else Inr (replicate (nat sz) 0))"

section \<open>delta.ts: the cursor\<close>

record Cursor =
  buffer :: Buffer
  position :: "nat option"
  byteLength :: nat

definition new_Cursor :: "Buffer \<Rightarrow> Cursor" where
  "new_Cursor b = \<lparr>buffer = b, position = Some 0, byteLength = length b\<rparr>"

definition Cursor_copyFrom :: "Cursor \<Rightarrow> Buffer \<Rightarrow> bool \<times> Cursor" where
  "Cursor_copyFrom c source =
     (let (bytesCopied, target) = Buffer_copy source (buffer c) (nat (toInteger (position c)));
          position' = map_option (\<lambda>p. p + bytesCopied) (position c)
      in ((case position' of None \<Rightarrow> False | Some p \<Rightarrow> p < byteLength c),
          c\<lparr>buffer := target, position := position'\<rparr>))"

definition Cursor_readByte :: "Cursor \<Rightarrow> byte option \<times> Cursor" where
  "Cursor_readByte c =
     (case position c of
        None \<Rightarrow> (None, c)
      | Some p \<Rightarrow> ((if p < length (buffer c) then Some (buffer c ! p) else None),
                  c\<lparr>position := Some (p + 1)\<rparr>))"

definition Cursor_slice :: "Cursor \<Rightarrow> nat option \<Rightarrow> Buffer \<times> Cursor" where
  "Cursor_slice c offset =
     (let stop = (case (position c, offset) of (Some p, Some n) \<Rightarrow> Some (p + n) | _ \<Rightarrow> None)
      in (subarray (buffer c) (toInteger (position c)) (toInteger stop),
          c\<lparr>position := stop\<rparr>))"

section \<open>delta.ts: the variable-length integers\<close>

text \<open>The \<open>for\<close> loop of \<open>readVariableLengthInt\<close>: one byte is read per round; a
  byte with its high bit set is accumulated and the loop goes on, the first byte with
  the high bit clear (or \<open>undefined\<close>, past the end) is accumulated and ends it.
  The shift count of \<open><<\<close> is taken modulo 32.\<close>

function readVariableLengthInt_loop :: "Cursor \<Rightarrow> 32 word \<Rightarrow> nat \<Rightarrow> int \<times> Cursor" where
  "readVariableLengthInt_loop cursor result shift =
     (let (byte, cursor') = Cursor_readByte cursor
      in if toInt32 byte AND 0x80 \<noteq> 0
         then readVariableLengthInt_loop cursor'
                (result OR push_bit (shift mod 32) (toInt32 byte AND 0x7F)) (shift + 7)
         else (sint (result OR push_bit (shift mod 32) (toInt32 byte AND 0x7F)), cursor'))"
  by pat_completeness auto
termination
proof (relation "measure (\<lambda>(c, r, s). case position c of None \<Rightarrow> 0
                                         | Some p \<Rightarrow> length (buffer c) - p)")
  show "wf (measure (\<lambda>(c, r, s). case position c of None \<Rightarrow> 0
                                         | Some p \<Rightarrow> length (buffer c) - p))"
    by simp
next
  fix cursor :: Cursor and result :: "32 word" and shift :: nat
    and x :: "byte option \<times> Cursor" and byte cursor'
  assume "x = Cursor_readByte cursor" and "(byte, cursor') = x"
    and "toInt32 byte AND 0x80 \<noteq> 0"
  then show "((cursor', result OR push_bit (shift mod 32) (toInt32 byte AND 0x7F), shift + 7),
              cursor, result, shift)
             \<in> measure (\<lambda>(c, r, s). case position c of None \<Rightarrow> 0
                                         | Some p \<Rightarrow> length (buffer c) - p)"
    by (auto simp: Cursor_readByte_def toInt32_def split: option.splits if_splits)
qed

declare readVariableLengthInt_loop.simps [simp del]

definition readVariableLengthInt :: "Cursor \<Rightarrow> int \<times> Cursor" where
  "readVariableLengthInt cursor = readVariableLengthInt_loop cursor 0 0"

text \<open>The \<open>while (maxBytes--)\<close> loop of \<open>readCompactNumber\<close>; \<open>>>=\<close> is the
  sign-propagating shift on 32-bit integers.\<close>

fun readCompactNumber_loop ::
  "Cursor \<Rightarrow> 32 word \<Rightarrow> nat \<Rightarrow> 32 word \<Rightarrow> nat \<Rightarrow> 32 word \<times> Cursor" where
  "readCompactNumber_loop cursor flagMask 0 decodedNumber shiftAmount = (decodedNumber, cursor)"
| "readCompactNumber_loop cursor flagMask (Suc maxBytes) decodedNumber shiftAmount =
     (if flagMask AND 1 \<noteq> 0
      then (let (byte, cursor') = Cursor_readByte cursor
            in readCompactNumber_loop cursor' (signed_drop_bit 1 flagMask) maxBytes
                 (decodedNumber OR push_bit (shiftAmount mod 32) (toInt32 byte))
                 (shiftAmount + 8))
      else readCompactNumber_loop cursor (signed_drop_bit 1 flagMask) maxBytes
             decodedNumber (shiftAmount + 8))"

definition readCompactNumber :: "Cursor \<Rightarrow> 32 word \<Rightarrow> nat \<Rightarrow> int \<times> Cursor" where
  "readCompactNumber cursor flagMask maxBytes =
     (let (decodedNumber, cursor') = readCompactNumber_loop cursor flagMask maxBytes 0 0
      in (sint decodedNumber, cursor'))"

section \<open>delta.ts: instructions and their application\<close>

definition readDeltaOperation :: "Cursor \<Rightarrow> Buffer \<Rightarrow> Buffer \<times> Cursor" where
  "readDeltaOperation cursor source =
     (let (opCode, c1) = Cursor_readByte cursor
      in if toInt32 opCode AND 0x80 \<noteq> 0
         then (let (offset, c2) = readCompactNumber c1 (toInt32 opCode AND 0x0F) 4;
                   (sz, c3) = readCompactNumber c2 (signed_drop_bit 4 (toInt32 opCode AND 0x70)) 3;
                   sz' = (if sz = 0 then 65536 else sz)
               in (subarray source offset (offset + sz'), c3))
         else Cursor_slice c1 (map_option unat opCode))"

text \<open>The loop \<open>while (targetCursor.copyFrom(readDeltaOperation(readCursor, source)));\<close>.
  It may run forever; \<open>None\<close> is the loop that does not return.\<close>

partial_function (option) fillTarget :: "Cursor \<Rightarrow> Buffer \<Rightarrow> Cursor \<Rightarrow> Buffer option" where
  "fillTarget readCursor source targetCursor =
     (case readDeltaOperation readCursor source of
        (operation, readCursor') \<Rightarrow>
          (case Cursor_copyFrom targetCursor operation of
             (unfilled, targetCursor') \<Rightarrow>
               if unfilled then fillTarget readCursor' source targetCursor'
               else Some (buffer targetCursor')))"

declare fillTarget.simps [code]

text \<open>The general path of \<open>applyOffsetDelta\<close>, after the early return: allocate the
  target, copy the first operation, then run the loop.\<close>

definition generalPath :: "int \<Rightarrow> Buffer \<Rightarrow> Cursor \<Rightarrow> Buffer \<Rightarrow> (error + Buffer) option" where
  "generalPath targetSize operation readCursor source =
     (case Buffer_allocUnsafe targetSize of
        Inl e \<Rightarrow> Some (Inl e)
      | Inr target \<Rightarrow>
          (let (unfilled, targetCursor) = Cursor_copyFrom (new_Cursor target) operation
           in map_option Inr (fillTarget readCursor source targetCursor)))"

definition applyOffsetDelta :: "Buffer \<Rightarrow> Buffer \<Rightarrow> (error + Buffer) option" where
  "applyOffsetDelta delta source =
     (let readCursor = new_Cursor delta;
          (baseSize, c1) = readVariableLengthInt readCursor;
          (targetSize, c2) = readVariableLengthInt c1;
          (operation, c3) = readDeltaOperation c2 source
      in if int (length operation) = targetSize then Some (Inr operation)
         else generalPath targetSize operation c3 source)"

section \<open>reader.ts: positioned reads from a file descriptor\<close>

text \<open>\<open>fs.readSync(fd, buffer, 0, length, position)\<close> on a file with the given
  contents: the bytes from \<open>position\<close> on, at most \<open>length\<close> of them, and none past
  the end of the file. A negative position is refused with a RangeError (so does
  Node.js, but for position -1, which it reads from the descriptor's own position;
  the model reports -1 as an error as well).\<close>

definition readSync :: "Buffer \<Rightarrow> nat \<Rightarrow> int \<Rightarrow> error + Buffer" where
  "readSync contents len pos =
     (if pos < 0 then Inl ERR_OUT_OF_RANGE else Inr (take len (drop (nat pos) contents)))"

text \<open>The reader: \<open>fd\<close> stands for the contents of the open file and \<open>maxReadSize\<close>
  for the length of the scratch buffer. The field \<open>trace\<close> is not in the source: it
  records, in order, the position of every \<open>readSync\<close> the reader has issued, so that
  statements about which parts of a file are read can be made.\<close>

record Reader =
  fd :: Buffer
  maxReadSize :: nat
  offset :: int
  trace :: "int list"

definition new_Reader :: "Buffer \<Rightarrow> nat \<Rightarrow> Reader" where
  "new_Reader contents n = \<lparr>fd = contents, maxReadSize = n, offset = 0, trace = []\<rparr>"

text \<open>\<open>read(bytes)\<close>; \<open>readSync\<close> refuses a length beyond the scratch buffer.\<close>

definition Reader_read :: "Reader \<Rightarrow> nat \<Rightarrow> error + Buffer \<times> Reader" where
  "Reader_read r bytes =
     (if maxReadSize r < bytes then Inl ERR_OUT_OF_RANGE
      else case readSync (fd r) bytes (offset r) of
             Inl e \<Rightarrow> Inl e
           | Inr b \<Rightarrow> Inr (b, r\<lparr>offset := offset r + int (length b),
                                 trace := trace r @ [offset r]\<rparr>))"

definition Reader_peek :: "Reader \<Rightarrow> nat \<Rightarrow> error + Buffer \<times> Reader" where
  "Reader_peek r bytes =
     (case readSync (fd r) bytes (offset r) of
        Inl e \<Rightarrow> Inl e
      | Inr b \<Rightarrow> Inr (b, r\<lparr>trace := trace r @ [offset r]\<rparr>))"

definition Reader_seek :: "Reader \<Rightarrow> int \<Rightarrow> Reader" where
  "Reader_seek r bytes = r\<lparr>offset := offset r + bytes\<rparr>"

text \<open>\<open>buf.readUInt32BE(0)\<close> and \<open>buf.readUInt8(0)\<close> raise when the buffer is too
  short.\<close>

definition Buffer_readUInt32BE :: "Buffer \<Rightarrow> error + nat" where
  "Buffer_readUInt32BE b =
     (case b of
        b0 # b1 # b2 # b3 # rest \<Rightarrow>
          Inr (unat b0 * 2 ^ 24 + unat b1 * 2 ^ 16 + unat b2 * 2 ^ 8 + unat b3)
      | _ \<Rightarrow> Inl ERR_BUFFER_OUT_OF_BOUNDS)"

definition Buffer_readUInt8 :: "Buffer \<Rightarrow> error + byte" where
  "Buffer_readUInt8 b = (case b of b0 # rest \<Rightarrow> Inr b0 | [] \<Rightarrow> Inl ERR_BUFFER_OUT_OF_BOUNDS)"

definition Reader_readUInt32BE :: "Reader \<Rightarrow> int \<Rightarrow> error + nat \<times> Reader" where
  "Reader_readUInt32BE r off =
     (case Reader_read (Reader_seek r off) 4 of
        Inl e \<Rightarrow> Inl e
      | Inr (b, r') \<Rightarrow>
          (case Buffer_readUInt32BE b of Inl e \<Rightarrow> Inl e | Inr v \<Rightarrow> Inr (v, r')))"

definition Reader_readUInt8 :: "Reader \<Rightarrow> int \<Rightarrow> error + byte \<times> Reader" where
  "Reader_readUInt8 r off =
     (case Reader_read (Reader_seek r off) 1 of
        Inl e \<Rightarrow> Inl e
      | Inr (b, r') \<Rightarrow>
          (case Buffer_readUInt8 b of Inl e \<Rightarrow> Inl e | Inr v \<Rightarrow> Inr (v, r')))"

section \<open>pack.ts: the index lookup\<close>

definition idxV2 :: Buffer where
  "idxV2 = [0xFF, 0x74, 0x4F, 0x63, 0x00, 0x00, 0x00, 0x02]"

text \<open>The \<open>for\<close> loop of \<open>getOidFromIdx\<close> over the candidates of the bucket;
  \<open>len\<close> is \<open>end - start\<close>, which is negative when the fan-out table decreases.
  \<open>None\<close> is the \<open>undefined\<close> the function returns when the loop runs out.\<close>

function scanBucket ::
  "Buffer \<Rightarrow> Reader \<Rightarrow> nat \<Rightarrow> nat \<Rightarrow> int \<Rightarrow> nat \<Rightarrow> error + nat option \<times> Reader" where
  "scanBucket oid reader hashTableLength start len i =
     (if int i < len
      then (case Reader_read reader 20 of
              Inl e \<Rightarrow> Inl e
            | Inr (candidate, r1) \<Rightarrow>
                if candidate \<noteq> oid
                then scanBucket oid r1 hashTableLength start len (i + 1)
                else (let r2 = Reader_seek r1 (20 * (int hashTableLength - int i - int start - 1));
                          r3 = Reader_seek r2 (4 * int hashTableLength);
                          r4 = Reader_seek r3 (4 * (int i + int start))
                      in case Reader_readUInt32BE r4 0 of
                           Inl e \<Rightarrow> Inl e
                         | Inr (v, r5) \<Rightarrow> Inr (Some v, r5)))
      else Inr (None, reader))"
  by pat_completeness auto
termination
  by (relation "measure (\<lambda>(oid, reader, hashTableLength, start, len, i). nat (len - int i))") auto

declare scanBucket.simps [simp del]

text \<open>An empty \<open>oid\<close> makes \<open>first\<close> undefined and the first seek offset \<open>NaN\<close>;
  \<open>readSync\<close> refuses that position.\<close>

definition getOidFromIdx :: "Buffer \<Rightarrow> Reader \<Rightarrow> error + nat option \<times> Reader" where
  "getOidFromIdx oid reader =
     (case oid of
        [] \<Rightarrow> Inl ERR_OUT_OF_RANGE
      | first # rest \<Rightarrow>
          (case (if first = 0 then Inr (0, reader)
                 else Reader_readUInt32BE reader (4 * (int (unat first) - 1))) of
             Inl e \<Rightarrow> Inl e
           | Inr (start, r1) \<Rightarrow>
               (case Reader_readUInt32BE r1 0 of
                  Inl e \<Rightarrow> Inl e
                | Inr (end, r2) \<Rightarrow>
                    (let len = int end - int start;
                         r3 = Reader_seek r2 (4 * (255 - int (unat first) - 1))
                     in case Reader_readUInt32BE r3 0 of
                          Inl e \<Rightarrow> Inl e
                        | Inr (hashTableLength, r4) \<Rightarrow>
                            scanBucket oid (Reader_seek r4 (20 * int start))
                              hashTableLength start len 0))))"

text \<open>\<open>searchGitIndex\<close>: \<open>if (value) return value; return null;\<close> turns both
  \<open>undefined\<close> and the number 0 into \<open>null\<close> (\<open>None\<close>).\<close>

definition searchGitIndex :: "Buffer \<Rightarrow> Buffer \<Rightarrow> error + nat option" where
  "searchGitIndex contents oid =
     (let reader = new_Reader contents 20
      in case Reader_read reader 8 of
           Inl e \<Rightarrow> Inl e
         | Inr (signature, r1) \<Rightarrow>
             if signature \<noteq> idxV2 then Inl UnsupportedIDX
             else (case getOidFromIdx oid r1 of
                     Inl e \<Rightarrow> Inl e
                   | Inr (found, r2) \<Rightarrow>
                       (case found of
                          Some v \<Rightarrow> if v \<noteq> 0 then Inr (Some v) else Inr None
                        | None \<Rightarrow> Inr None)))"

section \<open>pack.ts: the variable-length integers of the object header\<close>

text \<open>A successful one-byte read consumes one byte that lies inside the file; the
  loops below terminate because every round consumes one.\<close>

lemma readUInt8_advances:
  assumes "Reader_readUInt8 r 0 = Inr (b, r')"
  shows "fd r' = fd r" and "offset r' = offset r + 1"
    and "0 \<le> offset r" and "nat (offset r) < length (fd r)"
proof -
  let ?bytes = "take 1 (drop (nat (offset r)) (fd r))"
  from assms have nonneg: "0 \<le> offset r"
    by (auto simp: Reader_readUInt8_def Reader_read_def Reader_seek_def readSync_def
        split: if_splits sum.splits)
  from assms have r': "r' = r\<lparr>offset := offset r + int (length ?bytes),
                                trace := trace r @ [offset r]\<rparr>"
    and ne: "?bytes \<noteq> []"
    by (auto simp: Reader_readUInt8_def Reader_read_def Reader_seek_def readSync_def
        Buffer_readUInt8_def split: if_splits sum.splits list.splits)
  from ne have inside: "nat (offset r) < length (fd r)"
    by (cases "nat (offset r) < length (fd r)") simp_all
  then have "length ?bytes = 1" by simp
  with r' show "fd r' = fd r" and "offset r' = offset r + 1" by simp_all
  from nonneg show "0 \<le> offset r" .
  from inside show "nat (offset r) < length (fd r)" .
qed

text \<open>\<open>readByteLength\<close>: the low four bits of the header byte, then, when bit 7
  of the header byte is set, seven more bits per following byte until a byte with bit 7
  clear. The arithmetic is on 32-bit integers and the shift count is taken modulo 32.\<close>

function readByteLength_loop :: "Reader \<Rightarrow> 32 word \<Rightarrow> nat \<Rightarrow> error + int \<times> Reader" where
  "readByteLength_loop reader acc shift =
     (case Reader_readUInt8 reader 0 of
        Inl e \<Rightarrow> Inl e
      | Inr (byte, r1) \<Rightarrow>
          (let acc' = acc OR push_bit (shift mod 32) (ucast byte AND 0x7F)
           in if ucast byte AND (0x80 :: 32 word) = 0 then Inr (sint acc', r1)
              else readByteLength_loop r1 acc' (shift + 7)))"
  by pat_completeness auto
termination
proof (relation "measure (\<lambda>(r, bl, sh). length (fd r) - nat (offset r))")
  show "wf (measure (\<lambda>(r, bl, sh). length (fd r) - nat (offset r)))" by simp
next
  fix reader :: Reader and acc :: "32 word" and shift :: nat
    and x2 :: "byte \<times> Reader" and byte r1 and acc' :: "32 word"
  assume "Reader_readUInt8 reader 0 = Inr x2" and "(byte, r1) = x2"
  then have rd: "Reader_readUInt8 reader 0 = Inr (byte, r1)" by simp
  show "((r1, acc', shift + 7), reader, acc, shift)
          \<in> measure (\<lambda>(r, bl, sh). length (fd r) - nat (offset r))"
    using readUInt8_advances [OF rd] by simp
qed

declare readByteLength_loop.simps [simp del]

definition readByteLength :: "Reader \<Rightarrow> byte \<Rightarrow> error + int \<times> Reader" where
  "readByteLength reader flags =
     (let acc = ucast flags AND (0x0F :: 32 word);
          multibyte = ucast flags AND (0x80 :: 32 word)
      in if multibyte \<noteq> 0 then readByteLength_loop reader acc 4
         else Inr (sint acc, reader))"

text \<open>\<open>parseVariableLengthQuantity\<close>: the \<open>do ... while\<close> loop collects the low seven
  bits of every byte up to and including the first one with bit 7 clear; \<open>reduce\<close>
  then folds the chunks from -1 with \<open>((a + 1) << 7) | b\<close> on 32-bit integers.\<close>

function collectChunks :: "Reader \<Rightarrow> 32 word list \<Rightarrow> error + 32 word list \<times> Reader" where
  "collectChunks reader dataChunks =
     (case Reader_readUInt8 reader 0 of
        Inl e \<Rightarrow> Inl e
      | Inr (currentByte, r1) \<Rightarrow>
          (let dataChunks' = dataChunks @ [ucast currentByte AND 0x7F];
               continuationBit = ucast currentByte AND (0x80 :: 32 word)
           in if continuationBit \<noteq> 0 then collectChunks r1 dataChunks'
              else Inr (dataChunks', r1)))"
  by pat_completeness auto
termination
proof (relation "measure (\<lambda>(r, cs). length (fd r) - nat (offset r))")
  show "wf (measure (\<lambda>(r, cs). length (fd r) - nat (offset r)))" by simp
next
  fix reader :: Reader and dataChunks :: "32 word list"
    and x2 :: "byte \<times> Reader" and currentByte r1 and dataChunks' :: "32 word list"
  assume "Reader_readUInt8 reader 0 = Inr x2" and "(currentByte, r1) = x2"
  then have rd: "Reader_readUInt8 reader 0 = Inr (currentByte, r1)" by simp
  show "((r1, dataChunks'), reader, dataChunks)
          \<in> measure (\<lambda>(r, cs). length (fd r) - nat (offset r))"
    using readUInt8_advances [OF rd] by simp
qed

declare collectChunks.simps [simp del]

definition parseVariableLengthQuantity :: "Reader \<Rightarrow> error + int \<times> Reader" where
  "parseVariableLengthQuantity reader =
     (case collectChunks reader [] of
        Inl e \<Rightarrow> Inl e
      | Inr (dataChunks, r1) \<Rightarrow>
          Inr (sint (foldl (\<lambda>a b. push_bit 7 (a + 1) OR b) (- 1) dataChunks), r1))"

section \<open>inflate.ts: the incremental inflater\<close>

text \<open>The zlib binding of Node.js is native code, not part of the repository. The model
  takes it as a parameter: \<open>'z\<close> is the state of a native handle, \<open>zlibNew\<close> the handle
  after \<open>new Zlib(INFLATE)\<close> and \<open>init\<close>, \<open>zlibReset\<close> its \<open>reset()\<close>, and
  \<open>zlibWriteSync z chunk inOff inLen output outOff outLen\<close> one call of \<open>writeSync\<close>:
  it gives the new handle state, the output buffer after the call, and the two numbers
  the binding leaves in \<open>this.state\<close> (\<open>availOutAfter\<close>, \<open>availInAfter\<close>).\<close>

record 'z ZlibBinding =
  zlibNew :: 'z
  zlibWriteSync :: "'z \<Rightarrow> Buffer \<Rightarrow> int \<Rightarrow> int \<Rightarrow> Buffer \<Rightarrow> int \<Rightarrow> int \<Rightarrow> 'z \<times> Buffer \<times> nat \<times> nat"
  zlibReset :: "'z \<Rightarrow> 'z"

text \<open>The inflater holds the handle, or \<open>null\<close> (\<open>None\<close>) once closed. The field
  \<open>released\<close> is not in the source: it counts the calls of the native \<open>close()\<close>.\<close>

record 'z Inflater =
  zlib :: "'z option"
  released :: nat

definition new_Inflater :: "'z ZlibBinding \<Rightarrow> 'z Inflater" where
  "new_Inflater zl = \<lparr>zlib = Some (zlibNew zl), released = 0\<rparr>"

definition Inflater_close :: "'z Inflater \<Rightarrow> 'z Inflater" where
  "Inflater_close i =
     (case zlib i of
        Some z \<Rightarrow> i\<lparr>zlib := None, released := released i + 1\<rparr>
      | None \<Rightarrow> i)"

text \<open>The inner loop of \<open>inflate\<close>, over one chunk. Its state is the handle, the
  output buffer, \<open>inOffset\<close>, \<open>outOffset\<close>, \<open>totalInflated\<close>, \<open>availInBefore\<close> and
  \<open>availOutBefore\<close>. It runs forever when the binding makes no progress.\<close>

partial_function (option) inflateChunk ::
  "'z ZlibBinding \<Rightarrow> Buffer \<Rightarrow> 'z \<times> Buffer \<times> int \<times> int \<times> int \<times> int \<times> int
     \<Rightarrow> ('z \<times> Buffer \<times> int \<times> int) option" where
  "inflateChunk zl chunk st =
     (case st of
        (z, output, inOffset, outOffset, totalInflated, availInBefore, availOutBefore) \<Rightarrow>
          if availInBefore > 0 \<and> availOutBefore > 0
          then (case zlibWriteSync zl z chunk inOffset availInBefore output outOffset
                       availOutBefore of
                  (z', output', availOutAfter, availInAfter) \<Rightarrow>
                    (let inBytesRead = availInBefore - int availInAfter;
                         outBytesWritten = availOutBefore - int availOutAfter
                     in inflateChunk zl chunk
                          (z', output', inOffset + inBytesRead, outOffset + outBytesWritten,
                           totalInflated + outBytesWritten, int availInAfter,
                           int availOutAfter)))
          else Some (z, output, outOffset, totalInflated))"

declare inflateChunk.simps [code]

text \<open>The outer loop: peek a chunk, skip it, inflate from it, until \<open>outSize\<close> bytes
  have been produced. At the end of the file the chunk is empty and the loop does not
  end.\<close>

partial_function (option) inflateLoop ::
  "'z ZlibBinding \<Rightarrow> int \<Rightarrow> nat \<Rightarrow> 'z \<times> Reader \<times> Buffer \<times> int \<times> int
     \<Rightarrow> ((error + Buffer) \<times> 'z \<times> Reader) option" where
  "inflateLoop zl outSize chunkSize st =
     (case st of
        (z, reader, output, totalInflated, outOffset) \<Rightarrow>
          if totalInflated < outSize
          then (case Reader_peek reader chunkSize of
                  Inl e \<Rightarrow> Some (Inl e, z, reader)
                | Inr (chunk, r1) \<Rightarrow>
                    (let r2 = Reader_seek r1 (int (length chunk))
                     in case inflateChunk zl chunk
                               (z, output, 0, outOffset, totalInflated, int (length chunk),
                                outSize - outOffset) of
                          None \<Rightarrow> None
                        | Some (z', output', outOffset', totalInflated') \<Rightarrow>
                            inflateLoop zl outSize chunkSize
                              (z', r2, output', totalInflated', outOffset')))
          else Some (Inr output, z, reader))"

declare inflateLoop.simps [code]

text \<open>\<open>inflate(reader, outSize)\<close>; \<open>Z_MIN_CHUNK\<close> is 64. The result carries the
  inflater and the reader as the call leaves them.\<close>

definition Inflater_inflate ::
  "'z ZlibBinding \<Rightarrow> 'z Inflater \<Rightarrow> Reader \<Rightarrow> int
     \<Rightarrow> ((error + Buffer) \<times> 'z Inflater \<times> Reader) option" where
  "Inflater_inflate zl i reader outSize =
     (case zlib i of
        None \<Rightarrow> Some (Inl InflaterClosed, i, reader)
      | Some z \<Rightarrow>
          (let chunkSize = max 64 outSize
           in case Buffer_allocUnsafe outSize of
                Inl e \<Rightarrow> Some (Inl e, i, reader)
              | Inr output \<Rightarrow>
                  (case inflateLoop zl outSize (nat chunkSize) (z, reader, output, 0, 0) of
                     None \<Rightarrow> None
                   | Some (Inl e, z', reader') \<Rightarrow> Some (Inl e, i\<lparr>zlib := Some z'\<rparr>, reader')
                   | Some (Inr out, z', reader') \<Rightarrow>
                       Some (Inr out, i\<lparr>zlib := Some (zlibReset zl z')\<rparr>, reader'))))"

section \<open>pack.ts: reading an object from a pack\<close>

datatype ObjectType = Commit | Tree | Blob | Tag | OfsDelta | RefDelta

definition types :: "32 word \<Rightarrow> ObjectType option" where
  "types k =
     (if k = 0x10 then Some Commit
      else if k = 0x20 then Some Tree
      else if k = 0x30 then Some Blob
      else if k = 0x40 then Some Tag
      else if k = 0x60 then Some OfsDelta
      else if k = 0x70 then Some RefDelta
      else None)"

text \<open>\<open>readFromPack\<close> calls itself for the base of a delta. The first argument after
  the binding bounds the depth of the calls, as the JavaScript stack does: when it is
  used up the call fails with a RangeError (\<open>StackOverflow\<close>). \<open>None\<close> is a call that
  does not return because a loop inside it (inflating, applying a delta) runs forever.
  The variables \<open>type\<close> and \<open>base\<close> of the source are threaded through the two
  \<open>if\<close> statements; a \<open>null\<close> from \<open>searchGitIndex\<close> becomes offset 0 in
  \<open>seek\<close>.\<close>

primrec readFromPack ::
  "'z ZlibBinding \<Rightarrow> nat \<Rightarrow> Buffer \<Rightarrow> Buffer \<Rightarrow> int \<Rightarrow> 'z Inflater
     \<Rightarrow> ((error + ObjectType \<times> Buffer) \<times> 'z Inflater) option" where
  "readFromPack zl 0 packFd idxFd offs inflater = Some (Inl StackOverflow, inflater)"
| "readFromPack zl (Suc depth) packFd idxFd offs inflater =
     (let reader = Reader_seek (new_Reader packFd 1) offs
      in case Reader_readUInt8 reader 0 of
           Inl e \<Rightarrow> Some (Inl e, inflater)
         | Inr (flags, r1) \<Rightarrow>
       (case types (ucast flags AND 0x70) of
           None \<Rightarrow> Some (Inl (UnsupportedType (uint (flags AND 0x70))), inflater)
         | Some type0 \<Rightarrow>
       (case readByteLength r1 flags of
           Inl e \<Rightarrow> Some (Inl e, inflater)
         | Inr (objectLength, r2) \<Rightarrow>
       (case (if type0 = OfsDelta
              then (case parseVariableLengthQuantity r2 of
                      Inl e \<Rightarrow> Some (Inl e, inflater)
                    | Inr (end, r3) \<Rightarrow>
                        (case readFromPack zl depth packFd idxFd (offs - end) inflater of
                           None \<Rightarrow> None
                         | Some (Inl e, i1) \<Rightarrow> Some (Inl e, i1)
                         | Some (Inr (t, d), i1) \<Rightarrow> Some (Inr (t, Some d, r3), i1)))
              else Some (Inr (type0, None, r2), inflater)) of
           None \<Rightarrow> None
         | Some (Inl e, i1) \<Rightarrow> Some (Inl e, i1)
         | Some (Inr (type1, base1, r4), i1) \<Rightarrow>
       (case (if type1 = RefDelta
              then (case Reader_peek r4 20 of
                      Inl e \<Rightarrow> Some (Inl e, i1)
                    | Inr (baseOid, r5) \<Rightarrow>
                        (case searchGitIndex idxFd baseOid of
                           Inl e \<Rightarrow> Some (Inl e, i1)
                         | Inr found \<Rightarrow>
                             (let baseOffset = (case found of None \<Rightarrow> 0 | Some v \<Rightarrow> int v)
                              in case readFromPack zl depth packFd idxFd baseOffset i1 of
                                   None \<Rightarrow> None
                                 | Some (Inl e, i2) \<Rightarrow> Some (Inl e, i2)
                                 | Some (Inr (t, d), i2) \<Rightarrow>
                                     Some (Inr (t, Some d, Reader_seek r5 20), i2))))
              else Some (Inr (type1, base1, r4), i1)) of
           None \<Rightarrow> None
         | Some (Inl e, i2) \<Rightarrow> Some (Inl e, i2)
         | Some (Inr (type2, base2, r6), i2) \<Rightarrow>
       (case Inflater_inflate zl i2 r6 objectLength of
           None \<Rightarrow> None
         | Some (Inl e, i3, r7) \<Rightarrow> Some (Inl e, i3)
         | Some (Inr object, i3, r7) \<Rightarrow>
             (case base2 of
                Some base \<Rightarrow>
                  (case applyOffsetDelta object base of
                     None \<Rightarrow> None
                   | Some (Inl e) \<Rightarrow> Some (Inl e, i3)
                   | Some (Inr d) \<Rightarrow> Some (Inr (type2, d), i3))
              | None \<Rightarrow> Some (Inr (type2, object), i3))))))))"

section \<open>pack.ts: the scan of the pack directory\<close>

text \<open>The file system as the scan sees it: \<open>opendirSync\<close> gives the directory entries
  or raises (\<open>None\<close>), \<open>openSync\<close> on a name gives the contents of the file or raises
  (\<open>None\<close>). Paths are the entry names; the pack of an index is its name with the
  suffix \<open>.idx\<close> replaced by \<open>.pack\<close>. The \<open>oid\<close> is taken after
  \<open>Buffer.from(oid, "hex")\<close>.\<close>

record Dirent =
  name :: string
  isDirectory :: bool

definition endsWith :: "string \<Rightarrow> string \<Rightarrow> bool" where
  "endsWith s suffix \<longleftrightarrow>
     length suffix \<le> length s \<and> drop (length s - length suffix) s = suffix"

definition packFileOf :: "string \<Rightarrow> string" where
  "packFileOf idxPath = take (length idxPath - 4) idxPath @ ''.pack''"

text \<open>The \<open>while\<close> loop over the entries. An exception leaves the loop (\<open>Inl\<close>);
  \<open>Inr None\<close> is the \<open>return null\<close> after the loop. The inflater is closed in the
  \<open>finally\<close> block; its state is not part of the result.\<close>

fun scanPackDir ::
  "'z ZlibBinding \<Rightarrow> nat \<Rightarrow> (string \<Rightarrow> Buffer option) \<Rightarrow> Buffer \<Rightarrow> Dirent list
     \<Rightarrow> (error + Buffer option) option" where
  "scanPackDir zl depth openSync oidBuffer [] = Some (Inr None)"
| "scanPackDir zl depth openSync oidBuffer (dirent # rest) =
     (if isDirectory dirent \<or> \<not> endsWith (name dirent) ''.idx''
      then scanPackDir zl depth openSync oidBuffer rest
      else (case openSync (name dirent) of
              None \<Rightarrow> Some (Inl ENOENT)
            | Some indexFd \<Rightarrow>
                (case searchGitIndex indexFd oidBuffer of
                   Inl e \<Rightarrow> Some (Inl e)
                 | Inr None \<Rightarrow> scanPackDir zl depth openSync oidBuffer rest
                 | Inr (Some packOffset) \<Rightarrow>
                     (case openSync (packFileOf (name dirent)) of
                        None \<Rightarrow> Some (Inl ENOENT)
                      | Some packFd \<Rightarrow>
                          (case readFromPack zl depth packFd indexFd (int packOffset)
                                  (new_Inflater zl) of
                             None \<Rightarrow> None
                           | Some (Inl e, i) \<Rightarrow> Some (Inl e)
                           | Some (Inr (t, d), i) \<Rightarrow> Some (Inr (Some d)))))))"

text \<open>\<open>getCommitFromPackFile\<close>: the whole scan is inside one \<open>try\<close> whose
  \<open>catch\<close> returns \<open>null\<close>.\<close>

definition getCommitFromPackFile ::
  "'z ZlibBinding \<Rightarrow> nat \<Rightarrow> Dirent list option \<Rightarrow> (string \<Rightarrow> Buffer option) \<Rightarrow> Buffer
     \<Rightarrow> Buffer option option" where
  "getCommitFromPackFile zl depth opendirSync openSync oidBuffer =
     (case opendirSync of
        None \<Rightarrow> Some None
      | Some entries \<Rightarrow>
          (case scanPackDir zl depth openSync oidBuffer entries of
             None \<Rightarrow> None
           | Some (Inl e) \<Rightarrow> Some None
           | Some (Inr found) \<Rightarrow> Some found))"

section \<open>Instruction sequences of a delta\<close>

text \<open>The outputs of the first \<open>n\<close> instructions decoded from a cursor by
  \<open>readDeltaOperation\<close>, their concatenation, and the cursor after them.\<close>

fun operations :: "nat \<Rightarrow> Cursor \<Rightarrow> Buffer \<Rightarrow> Buffer list" where
  "operations 0 cursor source = []"
| "operations (Suc n) cursor source =
     (case readDeltaOperation cursor source of
        (operation, cursor') \<Rightarrow> operation # operations n cursor' source)"

definition produced :: "nat \<Rightarrow> Cursor \<Rightarrow> Buffer \<Rightarrow> Buffer" where
  "produced n cursor source = concat (operations n cursor source)"

fun cursorAfter :: "nat \<Rightarrow> Cursor \<Rightarrow> Buffer \<Rightarrow> Cursor" where
  "cursorAfter 0 cursor source = cursor"
| "cursorAfter (Suc n) cursor source = cursorAfter n (snd (readDeltaOperation cursor source)) source"

text \<open>A cursor is exhausted when its position is at or past the end of its buffer, or
  \<open>NaN\<close>; \<open>remaining\<close> counts the bytes before that.\<close>

definition remaining :: "Cursor \<Rightarrow> nat" where
  "remaining c = (case position c of None \<Rightarrow> 0 | Some p \<Rightarrow> length (buffer c) - p)"

definition exhausted :: "Cursor \<Rightarrow> bool" where
  "exhausted c = (case position c of None \<Rightarrow> True | Some p \<Rightarrow> length (buffer c) \<le> p)"

text \<open>The declared target size of a delta, and the cursor at its first instruction:
  what \<open>applyOffsetDelta\<close> has after reading the two sizes of the header.\<close>

definition deltaTargetSize :: "Buffer \<Rightarrow> int" where
  "deltaTargetSize delta = fst (readVariableLengthInt (snd (readVariableLengthInt (new_Cursor delta))))"

definition deltaInstructions :: "Buffer \<Rightarrow> Cursor" where
  "deltaInstructions delta = snd (readVariableLengthInt (snd (readVariableLengthInt (new_Cursor delta))))"

text \<open>The instructions from \<open>rc\<close> on eventually fill the target cursor \<open>tc\<close>.\<close>

definition fillable :: "Cursor \<Rightarrow> Buffer \<Rightarrow> Cursor \<Rightarrow> bool" where
  "fillable rc s tc =
     (\<forall>p. position tc = Some p \<longrightarrow> byteLength tc = length (buffer tc) \<longrightarrow>
          (\<exists>n. length (buffer tc) \<le> p + length (produced n rc s)))"

section \<open>The layout of a version-2 index file\<close>

text \<open>A well-formed index, as the format describes it: the signature, the 256 cumulative
  fan-out counts, the sorted hashes, one CRC and one offset per hash, each number a
  4-byte big-endian value, and whatever follows the offset table (checksums).\<close>

definition be32 :: "nat \<Rightarrow> Buffer" where
  "be32 n = [of_nat (n div 2 ^ 24), of_nat (n div 2 ^ 16), of_nat (n div 2 ^ 8), of_nat n]"

definition firstByte :: "Buffer \<Rightarrow> nat" where
  "firstByte h = unat (hd h)"

definition fanout :: "Buffer list \<Rightarrow> nat \<Rightarrow> nat" where
  "fanout hashes b = length (filter (\<lambda>h. firstByte h \<le> b) hashes)"

definition indexFile :: "Buffer list \<Rightarrow> nat list \<Rightarrow> nat list \<Rightarrow> Buffer \<Rightarrow> Buffer" where
  "indexFile hashes crcs offsets trailer =
     idxV2 @ concat (map (\<lambda>b. be32 (fanout hashes b)) [0..<256]) @ concat hashes
       @ concat (map be32 crcs) @ concat (map be32 offsets) @ trailer"

text \<open>The hashes are 20 bytes each and strictly ascending in the lexicographic order
  on byte strings; CRCs and offsets are parallel to them and fit 32 bits. An offset is
  never 0: a pack starts with a 12-byte header, so no object begins there.\<close>

definition wellFormedIndex :: "Buffer list \<Rightarrow> nat list \<Rightarrow> nat list \<Rightarrow> bool" where
  "wellFormedIndex hashes crcs offsets \<longleftrightarrow>
     sorted_wrt (<) hashes \<and> list_all (\<lambda>h. length h = 20) hashes
     \<and> length hashes < 2 ^ 32
     \<and> length crcs = length hashes \<and> list_all (\<lambda>c. c < 2 ^ 32) crcs
     \<and> length offsets = length hashes \<and> list_all (\<lambda>v. 0 < v \<and> v < 2 ^ 32) offsets"

text \<open>The bucket of a first byte \<open>f\<close> starts at the fan-out entry before it (0 for
  \<open>f = 0\<close>); \<open>boundsTrace f\<close> lists the file positions of the fan-out entries the
  lookup reads for it: entry \<open>f - 1\<close> (none for \<open>f = 0\<close>), entry \<open>f\<close>, and the last
  entry, which holds the number of hashes.\<close>

definition bucketStart :: "Buffer list \<Rightarrow> nat \<Rightarrow> nat" where
  "bucketStart hashes f = (if f = 0 then 0 else fanout hashes (f - 1))"

definition boundsTrace :: "nat \<Rightarrow> int list" where
  "boundsTrace f = (if f = 0 then [] else [8 + 4 * int (f - 1)]) @ [8 + 4 * int f, 1028]"

text \<open>The index reader (scratch buffer of 20 bytes) at a position, with a trace.\<close>

abbreviation idxReader :: "Buffer \<Rightarrow> int \<Rightarrow> int list \<Rightarrow> Reader" where
  "idxReader contents pos tr \<equiv> \<lparr>fd = contents, maxReadSize = 20, offset = pos, trace = tr\<rparr>"

text \<open>Two small indexes used as concrete instances.\<close>

definition sampleHashes :: "Buffer list" where
  "sampleHashes =
     [[0x01, 0, 0, 0, 0, 0, 0, 0, 0, 0, 0, 0, 0, 0, 0, 0, 0, 0, 0, 0],
      [0x01, 0, 0, 0, 0, 0, 0, 0, 0, 0, 0, 0, 0, 0, 0, 0, 0, 0, 0, 1],
      [0x7F, 9, 9, 9, 9, 9, 9, 9, 9, 9, 9, 9, 9, 9, 9, 9, 9, 9, 9, 9]]"

definition zeroBucketHashes :: "Buffer list" where
  "zeroBucketHashes =
     [[0x00, 0, 0, 0, 0, 0, 0, 0, 0, 0, 0, 0, 0, 0, 0, 0, 0, 0, 0, 0],
      [0x00, 0, 0, 0, 0, 0, 0, 0, 0, 0, 0, 0, 0, 0, 0, 0, 0, 0, 0, 7],
      [0x02, 9, 9, 9, 9, 9, 9, 9, 9, 9, 9, 9, 9, 9, 9, 9, 9, 9, 9, 9]]"

section \<open>The packed length, in the words of the format\<close>

text \<open>The value of a packed length: start from the low seven bits of the first byte and
  combine the low seven bits of every further byte as \<open>((acc + 1) << 7) | chunk\<close>, with
  the operators of JavaScript on 32-bit integers.\<close>

definition chunk7 :: "byte \<Rightarrow> 32 word" where
  "chunk7 b = ucast b AND 0x7F"

definition packedLength :: "Buffer \<Rightarrow> 32 word" where
  "packedLength bs = foldl (\<lambda>acc b. push_bit 7 (acc + 1) OR chunk7 b) (chunk7 (hd bs)) (tl bs)"

text \<open>The same recurrence on unbounded naturals, \<open>(acc + 1) * 128 + chunk\<close>: what the
  32-bit operators compute as long as nothing is shifted out.\<close>

definition packedValue :: "Buffer \<Rightarrow> nat" where
  "packedValue bs =
     foldl (\<lambda>acc b. (acc + 1) * 128 + unat b mod 128) (unat (hd bs) mod 128) (tl bs)"

section \<open>Delta chains, call sequences and concrete instances\<close>






text \<open>A sequence of calls on one inflater; \<open>None\<close> when an \<open>inflate\<close> among them does
  not return.\<close>

datatype call = Close | Inflate Reader int

fun runCalls :: "'z ZlibBinding \<Rightarrow> call list \<Rightarrow> 'z Inflater \<Rightarrow> 'z Inflater option" where
  "runCalls zl [] i = Some i"
| "runCalls zl (Close # calls) i = runCalls zl calls (Inflater_close i)"
| "runCalls zl (Inflate reader outSize # calls) i =
     (case Inflater_inflate zl i reader outSize of
        None \<Rightarrow> None
      | Some (res, i', reader') \<Rightarrow> runCalls zl calls i')"

text \<open>A stand-in for the zlib binding that stores data uncompressed, and a pack of three
  objects under it: a commit \<open>abc\<close> at offset 12, an offset-delta against it at 16 (one
  copy instruction), and an offset-delta against that delta at 22 (a copy and an insert,
  giving \<open>abcd\<close>). Then an index for the commit and a directory that holds a file
  \<open>a.idx\<close> without the signature before the good pair \<open>b.idx\<close>, \<open>b.pack\<close>.\<close>

definition storedZlib :: "unit ZlibBinding" where
  "storedZlib =
     \<lparr>zlibNew = (),
      zlibWriteSync = (\<lambda>z chunk inOff inLen output outOff outLen.
         let n = nat (min inLen outLen)
         in (z, take (nat outOff) output @ take n (drop (nat inOff) chunk)
                  @ drop (nat outOff + n) output,
             nat outLen - n, nat inLen - n)),
      zlibReset = (\<lambda>z. z)\<rparr>"

definition samplePack :: Buffer where
  "samplePack = [0x50, 0x41, 0x43, 0x4B, 0, 0, 0, 2, 0, 0, 0, 3,
                 0x13, 0x61, 0x62, 0x63,
                 0x64, 0x04, 3, 3, 0x90, 3,
                 0x66, 0x06, 3, 4, 0x90, 3, 1, 0x64]"

definition sampleOid :: Buffer where
  "sampleOid = [0x2A, 1, 2, 3, 4, 5, 6, 7, 8, 9, 10, 11, 12, 13, 14, 15, 16, 17, 18, 19]"

definition sampleIndex :: Buffer where
  "sampleIndex = indexFile [sampleOid] [0] [12] []"

definition sampleOpenSync :: "string \<Rightarrow> Buffer option" where
  "sampleOpenSync path =
     (if path = ''a.idx'' then Some [0x00, 0x01, 0x02]
      else if path = ''b.idx'' then Some sampleIndex
      else if path = ''b.pack'' then Some samplePack
      else None)"

section \<open>Properties of the delta decoder\<close>

lemma produced_0 [simp]: "produced 0 c s = []"
  by (simp add: produced_def)

lemma produced_Suc:
  "produced (Suc n) c s = fst (readDeltaOperation c s) @ produced n (snd (readDeltaOperation c s)) s"
  by (simp add: produced_def split: prod.splits)

lemma produced_add:
  "produced (n + m) c s = produced n c s @ produced m (cursorAfter n c s) s"
  by (induction n arbitrary: c) (simp_all add: produced_Suc)

lemma exhausted_remaining: "exhausted c \<longleftrightarrow> remaining c = 0"
  by (simp add: exhausted_def remaining_def split: option.splits)

lemma readByte_exhausted:
  "exhausted c \<Longrightarrow> fst (Cursor_readByte c) = None \<and> exhausted (snd (Cursor_readByte c))
     \<and> buffer (snd (Cursor_readByte c)) = buffer c"
  by (auto simp: exhausted_def Cursor_readByte_def split: option.splits)

lemma slice_exhausted:
  "exhausted c \<Longrightarrow> Cursor_slice c None = ([], c\<lparr>position := None\<rparr>)"
  by (auto simp: exhausted_def Cursor_slice_def subarray_def toInteger_def split: option.splits)

lemma readDeltaOperation_exhausted:
  assumes "exhausted c"
  shows "fst (readDeltaOperation c s) = []" and "exhausted (snd (readDeltaOperation c s))"
proof -
  obtain b c1 where rb: "Cursor_readByte c = (b, c1)" by (cases "Cursor_readByte c")
  with readByte_exhausted [OF assms] have b: "b = None" and c1: "exhausted c1" by simp_all
  have "readDeltaOperation c s = ([], c1\<lparr>position := None\<rparr>)"
    by (simp add: readDeltaOperation_def rb b toInt32_def slice_exhausted [OF c1])
  then show "fst (readDeltaOperation c s) = []" and "exhausted (snd (readDeltaOperation c s))"
    by (simp_all add: exhausted_def)
qed

lemma produced_exhausted:
  "exhausted c \<Longrightarrow> produced n c s = [] \<and> exhausted (cursorAfter n c s)"
  by (induction n arbitrary: c) (simp_all add: produced_Suc readDeltaOperation_exhausted)

lemma readByte_remaining:
  "remaining (snd (Cursor_readByte c)) \<le> remaining c"
  "buffer (snd (Cursor_readByte c)) = buffer c"
  "\<not> exhausted c \<Longrightarrow> remaining (snd (Cursor_readByte c)) < remaining c"
  by (auto simp: remaining_def exhausted_def Cursor_readByte_def split: option.splits)

lemma readCompactNumber_loop_remaining:
  "remaining (snd (readCompactNumber_loop c f n d sh)) \<le> remaining c"
proof (induction n arbitrary: c f d sh)
  case 0
  then show ?case by simp
next
  case (Suc n)
  show ?case
  proof (cases "f AND 1 \<noteq> 0")
    case True
    obtain b c1 where rb: "Cursor_readByte c = (b, c1)" by (cases "Cursor_readByte c")
    have "remaining c1 \<le> remaining c" using readByte_remaining(1) [of c] rb by simp
    moreover have "remaining (snd (readCompactNumber_loop c1 (signed_drop_bit 1 f) n
        (d OR push_bit (sh mod 32) (toInt32 b)) (sh + 8))) \<le> remaining c1"
      by (rule Suc.IH)
    ultimately show ?thesis using True rb by simp
  next
    case False
    then show ?thesis using Suc.IH [of c] by simp
  qed
qed

lemma readCompactNumber_remaining:
  "remaining (snd (readCompactNumber c f n)) \<le> remaining c"
  using readCompactNumber_loop_remaining [of c f n 0 0]
  by (cases "readCompactNumber_loop c f n 0 0") (simp add: readCompactNumber_def)

lemma slice_remaining: "remaining (snd (Cursor_slice c off)) \<le> remaining c"
  by (auto simp: Cursor_slice_def remaining_def Let_def split: option.splits)

lemma readDeltaOperation_remaining:
  assumes "\<not> exhausted c"
  shows "remaining (snd (readDeltaOperation c s)) < remaining c"
proof -
  obtain b c1 where rb: "Cursor_readByte c = (b, c1)" by (cases "Cursor_readByte c")
  have lt: "remaining c1 < remaining c" using readByte_remaining(3) [OF assms] rb by simp
  show ?thesis
  proof (cases "toInt32 b AND 0x80 \<noteq> 0")
    case True
    obtain off c2 where r1: "readCompactNumber c1 (toInt32 b AND 0x0F) 4 = (off, c2)"
      by (cases "readCompactNumber c1 (toInt32 b AND 0x0F) 4")
    obtain sz c3 where r2: "readCompactNumber c2 (signed_drop_bit 4 (toInt32 b AND 0x70)) 3 = (sz, c3)"
      by (cases "readCompactNumber c2 (signed_drop_bit 4 (toInt32 b AND 0x70)) 3")
    have "remaining c2 \<le> remaining c1"
      using readCompactNumber_remaining [of c1 "toInt32 b AND 0x0F" 4] r1 by simp
    moreover have "remaining c3 \<le> remaining c2"
      using readCompactNumber_remaining [of c2 "signed_drop_bit 4 (toInt32 b AND 0x70)" 3] r2 by simp
    ultimately have "remaining c3 < remaining c" using lt by simp
    then show ?thesis using True rb r1 r2 by (simp add: readDeltaOperation_def)
  next
    case False
    have "remaining (snd (Cursor_slice c1 (map_option unat b))) \<le> remaining c1"
      by (rule slice_remaining)
    then show ?thesis using False rb lt by (simp add: readDeltaOperation_def)
  qed
qed

lemma eventually_exhausted: "\<exists>n. exhausted (cursorAfter n c s)"
proof (induction "remaining c" arbitrary: c rule: less_induct)
  case less
  show ?case
  proof (cases "exhausted c")
    case True
    then have "exhausted (cursorAfter 0 c s)" by simp
    then show ?thesis by blast
  next
    case False
    from less [OF readDeltaOperation_remaining [OF False, of s]]
    obtain n where "exhausted (cursorAfter n (snd (readDeltaOperation c s)) s)" by blast
    then have "exhausted (cursorAfter (Suc n) c s)" by simp
    then show ?thesis by blast
  qed
qed

lemma copyFrom_full:
  assumes "position tc = Some p" "byteLength tc = length (buffer tc)" "length (buffer tc) \<le> p"
  shows "Cursor_copyFrom tc op = (False, tc)"
  using assms by (simp add: Cursor_copyFrom_def Buffer_copy_def toInteger_def)

lemma copyFrom_room:
  assumes "position tc = Some p" "byteLength tc = length (buffer tc)" "p < length (buffer tc)"
  shows "Cursor_copyFrom tc op =
           (p + min (length op) (length (buffer tc) - p) < length (buffer tc),
            tc\<lparr>buffer := take p (buffer tc) @ take (length (buffer tc) - p) op
                            @ drop (p + length op) (buffer tc),
               position := Some (p + min (length op) (length (buffer tc) - p))\<rparr>)"
proof -
  have "take (min (length op) (length (buffer tc) - p)) op = take (length (buffer tc) - p) op"
    by (simp add: min_def)
  moreover have "drop (p + min (length op) (length (buffer tc) - p)) (buffer tc)
      = drop (p + length op) (buffer tc)"
    by (simp add: min_def)
  ultimately show ?thesis
    using assms by (simp add: Cursor_copyFrom_def Buffer_copy_def toInteger_def Let_def)
qed

lemma fillTarget_returns:
  assumes "position tc = Some p" "byteLength tc = length (buffer tc)" "p \<le> length (buffer tc)"
    and "length (buffer tc) \<le> p + length (produced n rc s)"
  shows "fillTarget rc s tc
           = Some (take p (buffer tc) @ take (length (buffer tc) - p) (produced n rc s))"
  using assms
proof (induction n arbitrary: rc tc p)
  case 0
  then have full: "length (buffer tc) \<le> p" by simp
  obtain op rc' where rd: "readDeltaOperation rc s = (op, rc')" by (cases "readDeltaOperation rc s")
  show ?case
    using full "0.prems"(3)
    by (subst fillTarget.simps) (simp add: rd copyFrom_full [OF "0.prems"(1,2) full])
next
  case (Suc n)
  obtain op rc' where rd: "readDeltaOperation rc s = (op, rc')" by (cases "readDeltaOperation rc s")
  have prod: "produced (Suc n) rc s = op @ produced n rc' s" by (simp add: produced_Suc rd)
  show ?case
  proof (cases "length (buffer tc) \<le> p")
    case True
    then show ?thesis
      using Suc.prems(3)
      by (subst fillTarget.simps) (simp add: rd copyFrom_full [OF Suc.prems(1,2) True])
  next
    case False
    then have room: "p < length (buffer tc)" by simp
    let ?len = "length (buffer tc)"
    let ?p' = "p + min (length op) (?len - p)"
    let ?tc' = "tc\<lparr>buffer := take p (buffer tc) @ take (?len - p) op @ drop (p + length op) (buffer tc),
                    position := Some ?p'\<rparr>"
    have cf: "Cursor_copyFrom tc op = (?p' < ?len, ?tc')"
      by (rule copyFrom_room [OF Suc.prems(1,2) room])
    have len': "length (buffer ?tc') = ?len" using room by (simp add: min_def)
    show ?thesis
    proof (cases "?p' < ?len")
      case True
      then have opfits: "length op < ?len - p" by (simp add: min_def split: if_splits)
      have "fillTarget rc' s ?tc'
              = Some (take ?p' (buffer ?tc') @ take (length (buffer ?tc') - ?p') (produced n rc' s))"
      proof (rule Suc.IH)
        show "position ?tc' = Some ?p'" by simp
        show "byteLength ?tc' = length (buffer ?tc')" using len' Suc.prems(2) by simp
        show "?p' \<le> length (buffer ?tc')" using True len' by simp
        show "length (buffer ?tc') \<le> ?p' + length (produced n rc' s)"
          using Suc.prems(4) opfits len' by (simp add: prod min_def)
      qed
      moreover have "take ?p' (buffer ?tc') = take p (buffer tc) @ op"
        using opfits room by (simp add: min_def)
      moreover have "length (buffer ?tc') - ?p' = ?len - p - length op"
        using opfits len' by (simp add: min_def)
      ultimately have "fillTarget rc' s ?tc'
          = Some (take p (buffer tc) @ take (?len - p) (produced (Suc n) rc s))"
        using opfits by (simp add: prod)
      moreover have "Cursor_copyFrom tc op = (True, ?tc')" using cf True by simp
      ultimately show ?thesis
        by (subst fillTarget.simps) (simp add: rd)
    next
      case False
      then have over: "?len - p \<le> length op" by (simp add: min_def split: if_splits)
      then have "buffer ?tc' = take p (buffer tc) @ take (?len - p) (produced (Suc n) rc s)"
        using room by (simp add: prod)
      moreover have "Cursor_copyFrom tc op = (False, ?tc')" using cf False by simp
      ultimately show ?thesis
        by (subst fillTarget.simps) (simp add: rd)
    qed
  qed
qed

lemma fillTarget_returns_only_if:
  assumes ret: "fillTarget rc s tc = Some y"
  shows "fillable rc s tc"
proof (rule fillTarget.raw_induct [where P = "\<lambda>rc s tc y. fillable rc s tc", OF _ ret])
  fix f :: "Cursor \<Rightarrow> Buffer \<Rightarrow> Cursor \<Rightarrow> Buffer option" and rc s tc y
  assume IH: "\<And>rc s tc y. f rc s tc = Some y \<Longrightarrow> fillable rc s tc"
    and step: "(case readDeltaOperation rc s of
                  (operation, readCursor') \<Rightarrow>
                    (case Cursor_copyFrom tc operation of
                       (unfilled, targetCursor') \<Rightarrow>
                         if unfilled then f readCursor' s targetCursor'
                         else Some (buffer targetCursor'))) = Some y"
  obtain op rc' where rd: "readDeltaOperation rc s = (op, rc')" by (cases "readDeltaOperation rc s")
  have prod: "\<And>n. produced (Suc n) rc s = op @ produced n rc' s" by (simp add: produced_Suc rd)
  show "fillable rc s tc"
    unfolding fillable_def
  proof (intro allI impI)
    fix p
    assume pos: "position tc = Some p" and bl: "byteLength tc = length (buffer tc)"
    show "\<exists>n. length (buffer tc) \<le> p + length (produced n rc s)"
    proof (cases "length (buffer tc) \<le> p")
      case True
      then have "length (buffer tc) \<le> p + length (produced 0 rc s)" by simp
      then show ?thesis by blast
    next
      case False
      then have room: "p < length (buffer tc)" by simp
      let ?len = "length (buffer tc)"
      let ?p' = "p + min (length op) (?len - p)"
      let ?tc' = "tc\<lparr>buffer := take p (buffer tc) @ take (?len - p) op @ drop (p + length op) (buffer tc),
                      position := Some ?p'\<rparr>"
      have cf: "Cursor_copyFrom tc op = (?p' < ?len, ?tc')"
        by (rule copyFrom_room [OF pos bl room])
      have len': "length (buffer ?tc') = ?len" using room by (simp add: min_def)
      show ?thesis
      proof (cases "?p' < ?len")
        case True
        then have opfits: "length op < ?len - p" by (simp add: min_def split: if_splits)
        have "Cursor_copyFrom tc op = (True, ?tc')" using cf True by simp
        with step have "f rc' s ?tc' = Some y" by (simp add: rd)
        then have "fillable rc' s ?tc'" by (rule IH)
        moreover have "position ?tc' = Some ?p'" by simp
        moreover have "byteLength ?tc' = length (buffer ?tc')" using len' bl by simp
        ultimately obtain n where "length (buffer ?tc') \<le> ?p' + length (produced n rc' s)"
          unfolding fillable_def by blast
        then have "?len \<le> p + length (produced (Suc n) rc s)"
          using opfits len' by (simp add: prod min_def)
        then show ?thesis by blast
      next
        case False
        then have "?len \<le> p + length (produced (Suc 0) rc s)"
          by (simp add: prod min_def split: if_splits)
        then show ?thesis by blast
      qed
    qed
  qed
qed

lemma applyOffsetDelta_unfold:
  "applyOffsetDelta delta source =
     (case readDeltaOperation (deltaInstructions delta) source of
        (operation, c3) \<Rightarrow>
          if int (length operation) = deltaTargetSize delta then Some (Inr operation)
          else generalPath (deltaTargetSize delta) operation c3 source)"
  by (simp add: applyOffsetDelta_def deltaTargetSize_def deltaInstructions_def Let_def
      split: prod.splits)

lemma copyFrom_new:
  "Cursor_copyFrom (new_Cursor (replicate t 0)) op =
     (min (length op) t < t,
      \<lparr>buffer = take t op @ replicate (t - length op) 0,
       position = Some (min (length op) t), byteLength = t\<rparr>)"
  by (cases "t = 0")
     (auto simp: Cursor_copyFrom_def Buffer_copy_def new_Cursor_def toInteger_def Let_def min_def)

lemma generalPath_returns:
  assumes "0 \<le> t" and "t \<le> int (length (op @ produced n rc s))"
  shows "generalPath t op rc s = Some (Inr (take (nat t) (op @ produced n rc s)))"
proof -
  let ?t = "nat t"
  let ?tc = "\<lparr>buffer = take ?t op @ replicate (?t - length op) 0,
              position = Some (min (length op) ?t), byteLength = ?t\<rparr>"
  have "fillTarget rc s ?tc
          = Some (take (min (length op) ?t) (buffer ?tc)
                  @ take (length (buffer ?tc) - min (length op) ?t) (produced n rc s))"
  proof (rule fillTarget_returns)
    show "position ?tc = Some (min (length op) ?t)" by simp
    show "byteLength ?tc = length (buffer ?tc)" by (simp add: min_def)
    show "min (length op) ?t \<le> length (buffer ?tc)" by (simp add: min_def)
    show "length (buffer ?tc) \<le> min (length op) ?t + length (produced n rc s)"
      using assms by (simp add: min_def)
  qed
  moreover have "take (min (length op) ?t) (buffer ?tc) = take ?t op"
    by (simp add: min_def)
  moreover have "length (buffer ?tc) - min (length op) ?t = ?t - length op"
    by (simp add: min_def)
  ultimately have "fillTarget rc s ?tc = Some (take ?t (op @ produced n rc s))"
    by simp
  then show ?thesis
    using assms(1) by (simp add: generalPath_def Buffer_allocUnsafe_def copyFrom_new)
qed

lemma applyOffsetDelta_returns:
  assumes "0 \<le> deltaTargetSize delta"
    and "deltaTargetSize delta \<le> int (length (produced n (deltaInstructions delta) source))"
  shows "applyOffsetDelta delta source
           = Some (Inr (take (nat (deltaTargetSize delta))
                          (produced n (deltaInstructions delta) source)))"
proof -
  let ?c = "deltaInstructions delta" and ?t = "deltaTargetSize delta"
  obtain op c3 where rd: "readDeltaOperation ?c source = (op, c3)"
    by (cases "readDeltaOperation ?c source")
  show ?thesis
  proof (cases n)
    case 0
    with assms have t0: "?t = 0" by simp
    have "generalPath 0 op c3 source = Some (Inr (take (nat 0) (op @ produced 0 c3 source)))"
      by (rule generalPath_returns) simp_all
    then show ?thesis using t0 0 by (simp add: applyOffsetDelta_unfold rd)
  next
    case (Suc m)
    then have prod: "produced n ?c source = op @ produced m c3 source"
      by (simp add: produced_Suc rd)
    have "generalPath ?t op c3 source = Some (Inr (take (nat ?t) (op @ produced m c3 source)))"
      using assms prod by (intro generalPath_returns) simp_all
    then show ?thesis using assms(1) by (auto simp add: applyOffsetDelta_unfold rd prod)
  qed
qed

lemma generalPath_returns_only_if:
  assumes "generalPath t op rc s = Some r" and "0 \<le> t"
  shows "\<exists>n. t \<le> int (length (op @ produced n rc s))"
proof -
  let ?t = "nat t"
  let ?tc = "\<lparr>buffer = take ?t op @ replicate (?t - length op) 0,
              position = Some (min (length op) ?t), byteLength = ?t\<rparr>"
  from assms obtain y where "fillTarget rc s ?tc = Some y"
    by (auto simp: generalPath_def Buffer_allocUnsafe_def copyFrom_new)
  then have "fillable rc s ?tc" by (rule fillTarget_returns_only_if)
  moreover have "byteLength ?tc = length (buffer ?tc)" by (simp add: min_def)
  ultimately obtain n where "length (buffer ?tc) \<le> min (length op) ?t + length (produced n rc s)"
    unfolding fillable_def by fastforce
  then have "t \<le> int (length (op @ produced n rc s))"
    using assms(2) by (simp add: min_def split: if_splits)
  then show ?thesis by blast
qed

lemma applyOffsetDelta_returns_only_if:
  assumes "applyOffsetDelta delta source = Some r"
  shows "\<exists>n. deltaTargetSize delta \<le> int (length (produced n (deltaInstructions delta) source))"
proof -
  let ?c = "deltaInstructions delta" and ?t = "deltaTargetSize delta"
  obtain op c3 where rd: "readDeltaOperation ?c source = (op, c3)"
    by (cases "readDeltaOperation ?c source")
  have prod: "\<And>n. produced (Suc n) ?c source = op @ produced n c3 source"
    by (simp add: produced_Suc rd)
  show ?thesis
  proof (cases "?t < 0")
    case True
    then have "?t \<le> int (length (produced 0 ?c source))" by simp
    then show ?thesis by blast
  next
    case nonneg: False
    show ?thesis
    proof (cases "int (length op) = ?t")
      case True
      then have "?t \<le> int (length (produced (Suc 0) ?c source))" by (simp add: prod)
      then show ?thesis by blast
    next
      case False
      with assms have "generalPath ?t op c3 source = Some r"
        by (simp add: applyOffsetDelta_unfold rd)
      from generalPath_returns_only_if [OF this] nonneg
      obtain n where "?t \<le> int (length (op @ produced n c3 source))" by auto
      then have "?t \<le> int (length (produced (Suc n) ?c source))" by (simp add: prod)
      then show ?thesis by blast
    qed
  qed
qed

lemma applyOffsetDelta_negative:
  assumes "deltaTargetSize delta < 0"
  shows "applyOffsetDelta delta source = Some (Inl ERR_OUT_OF_RANGE)"
  using assms
  by (auto simp: applyOffsetDelta_unfold generalPath_def Buffer_allocUnsafe_def split: prod.splits)

lemma never_enough_iff:
  "(\<forall>n. int (length (produced n c s)) < t)
     \<longleftrightarrow> (\<exists>n. exhausted (cursorAfter n c s) \<and> int (length (produced n c s)) < t)"
proof
  assume all: "\<forall>n. int (length (produced n c s)) < t"
  obtain n where "exhausted (cursorAfter n c s)" using eventually_exhausted by blast
  with all show "\<exists>n. exhausted (cursorAfter n c s) \<and> int (length (produced n c s)) < t"
    by blast
next
  assume "\<exists>n. exhausted (cursorAfter n c s) \<and> int (length (produced n c s)) < t"
  then obtain n where ex: "exhausted (cursorAfter n c s)"
    and lt: "int (length (produced n c s)) < t" by blast
  show "\<forall>n. int (length (produced n c s)) < t"
  proof
    fix m
    have "length (produced m c s) \<le> length (produced n c s)"
    proof (cases "m \<le> n")
      case True
      then obtain k where "n = m + k" using le_Suc_ex by blast
      then show ?thesis by (simp add: produced_add)
    next
      case False
      then obtain k where "m = n + k" using le_Suc_ex [of n m] by auto
      then show ?thesis using produced_exhausted [OF ex, of k s] by (simp add: produced_add)
    qed
    with lt show "int (length (produced m c s)) < t" by simp
  qed
qed

lemma applyOffsetDelta_None_iff:
  "applyOffsetDelta delta source = None \<longleftrightarrow>
     (\<exists>n. exhausted (cursorAfter n (deltaInstructions delta) source)
          \<and> int (length (produced n (deltaInstructions delta) source)) < deltaTargetSize delta)"
proof -
  let ?c = "deltaInstructions delta" and ?t = "deltaTargetSize delta"
  have "applyOffsetDelta delta source = None \<longleftrightarrow> (\<forall>n. int (length (produced n ?c source)) < ?t)"
  proof
    assume none: "applyOffsetDelta delta source = None"
    show "\<forall>n. int (length (produced n ?c source)) < ?t"
    proof (rule ccontr)
      assume "\<not> (\<forall>n. int (length (produced n ?c source)) < ?t)"
      then obtain n where n: "?t \<le> int (length (produced n ?c source))"
        by (auto simp: not_less)
      show False
      proof (cases "?t < 0")
        case True
        then show False using none applyOffsetDelta_negative [of delta source] by simp
      next
        case False
        then show False using none applyOffsetDelta_returns [of delta n source] n by simp
      qed
    qed
  next
    assume all: "\<forall>n. int (length (produced n ?c source)) < ?t"
    show "applyOffsetDelta delta source = None"
    proof (cases "applyOffsetDelta delta source")
      case None
      then show ?thesis .
    next
      case (Some r)
      from applyOffsetDelta_returns_only_if [OF this] all show ?thesis
        by (auto simp: not_less [symmetric])
    qed
  qed
  then show ?thesis by (simp add: never_enough_iff)
qed

section \<open>Properties of the index lookup\<close>

lemma concat_chunks_length:
  "list_all (\<lambda>x. length x = m) xs \<Longrightarrow> length (concat xs) = m * length xs"
  by (induction xs) simp_all

lemma concat_chunks_nth:
  "list_all (\<lambda>x. length x = m) xs \<Longrightarrow> k < length xs \<Longrightarrow>
     take m (drop (m * k) (concat xs)) = xs ! k"
proof (induction xs arbitrary: k)
  case Nil
  then show ?case by simp
next
  case (Cons x xs)
  show ?case
  proof (cases k)
    case 0
    with Cons.prems show ?thesis by simp
  next
    case (Suc j)
    with Cons.prems have "take m (drop (m * j) (concat xs)) = xs ! j"
      by (intro Cons.IH) simp_all
    with Cons.prems Suc show ?thesis by simp
  qed
qed

lemma read_region:
  assumes "fd r = pre @ X @ post" and "offset r = int (length pre) + int q"
    and "q + n \<le> length X" and "n \<le> maxReadSize r"
  shows "Reader_read r n
           = Inr (take n (drop q X), r\<lparr>offset := offset r + int n, trace := trace r @ [offset r]\<rparr>)"
proof -
  have "nat (offset r) = length pre + q" using assms(2) by simp
  then have "take n (drop (nat (offset r)) (fd r)) = take n (drop q X)"
    using assms(1,3) by simp
  moreover have "length (take n (drop q X)) = n" using assms(3) by simp
  moreover have "0 \<le> offset r" using assms(2) by simp
  ultimately show ?thesis
    using assms(4) by (simp add: Reader_read_def readSync_def)
qed

lemma length_be32 [simp]: "length (be32 v) = 4"
  by (simp add: be32_def)

lemma be32_sum:
  "(v::nat) div 2 ^ 24 * 2 ^ 24 + v div 2 ^ 16 mod 256 * 2 ^ 16
      + v div 2 ^ 8 mod 256 * 2 ^ 8 + v mod 256 = v"
proof -
  define a where "a = v div 256"
  define b where "b = a div 256"
  define c where "c = b div 256"
  define v0 where "v0 = v mod 256"
  define a0 where "a0 = a mod 256"
  define b0 where "b0 = b mod 256"
  have 1: "v = 256 * a + v0" by (simp add: a_def v0_def)
  have 2: "a = 256 * b + a0" by (simp add: b_def a0_def)
  have 3: "b = 256 * c + b0" by (simp add: c_def b0_def)
  have "v div 2 ^ 8 = a" by (simp add: a_def)
  moreover have "v div 2 ^ 16 = b"
    by (simp add: a_def b_def div_mult2_eq [symmetric])
  moreover have "v div 2 ^ 24 = c"
    by (simp add: a_def b_def c_def div_mult2_eq [symmetric])
  moreover have "c * 16777216 + b0 * 65536 + a0 * 256 + v0 = v"
    using 1 2 3 by linarith
  ultimately show ?thesis by (simp add: v0_def a0_def b0_def)
qed

lemma be32_decode:
  assumes "v < 2 ^ 32"
  shows "Buffer_readUInt32BE (be32 v) = Inr v"
proof -
  have "unat (of_nat (v div 2 ^ 24) :: byte) = v div 2 ^ 24"
    using assms by (simp add: unat_of_nat less_mult_imp_div_less)
  moreover have "unat (of_nat (v div 2 ^ 16) :: byte) = v div 2 ^ 16 mod 256"
    by (simp add: unat_of_nat)
  moreover have "unat (of_nat (v div 2 ^ 8) :: byte) = v div 2 ^ 8 mod 256"
    by (simp add: unat_of_nat)
  moreover have "unat (of_nat v :: byte) = v mod 256"
    by (simp add: unat_of_nat)
  ultimately have "Buffer_readUInt32BE (be32 v)
      = Inr (v div 2 ^ 24 * 2 ^ 24 + v div 2 ^ 16 mod 256 * 2 ^ 16
               + v div 2 ^ 8 mod 256 * 2 ^ 8 + v mod 256)"
    by (simp only: Buffer_readUInt32BE_def be32_def list.case)
  then show ?thesis by (simp only: be32_sum)
qed

lemma read_table_entry:
  assumes contents: "fd r = pre @ concat (map be32 vs) @ post"
    and pos: "offset r + rel = int (length pre) + 4 * int k"
    and k: "k < length vs" and v: "vs ! k < 2 ^ 32" and m: "4 \<le> maxReadSize r"
  shows "Reader_readUInt32BE r rel
           = Inr (vs ! k, r\<lparr>offset := offset r + rel + 4, trace := trace r @ [offset r + rel]\<rparr>)"
proof -
  let ?r = "Reader_seek r rel"
  have chunks: "list_all (\<lambda>x. length x = 4) (map be32 vs)"
    by (simp add: list_all_iff)
  have "Reader_read ?r 4 = Inr (take 4 (drop (4 * k) (concat (map be32 vs))),
          ?r\<lparr>offset := offset ?r + int 4, trace := trace ?r @ [offset ?r]\<rparr>)"
  proof (rule read_region)
    show "fd ?r = pre @ concat (map be32 vs) @ post" using contents by (simp add: Reader_seek_def)
    show "offset ?r = int (length pre) + int (4 * k)" using pos by (simp add: Reader_seek_def)
    show "4 * k + 4 \<le> length (concat (map be32 vs))"
      using k by (simp add: concat_chunks_length [OF chunks])
    show "4 \<le> maxReadSize ?r" using m by (simp add: Reader_seek_def)
  qed
  moreover have "take 4 (drop (4 * k) (concat (map be32 vs))) = be32 (vs ! k)"
    using concat_chunks_nth [OF chunks, of k] k by simp
  ultimately show ?thesis
    by (simp add: Reader_readUInt32BE_def be32_decode [OF v] Reader_seek_def)
qed

lemma firstByte_le: "firstByte h \<le> 255"
proof -
  have "unat (hd h) < 2 ^ LENGTH(8)" by (rule unsigned_less)
  then show ?thesis by (simp add: firstByte_def)
qed

lemma fanout_le: "fanout hashes b \<le> length hashes"
  by (simp add: fanout_def)

lemma fanout_mono: "b \<le> b' \<Longrightarrow> fanout hashes b \<le> fanout hashes b'"
proof (induction hashes)
  case Nil
  then show ?case by (simp add: fanout_def)
next
  case (Cons h hs)
  then show ?case by (auto simp: fanout_def)
qed

lemma fanout_255: "fanout hashes 255 = length hashes"
  by (simp add: fanout_def firstByte_le)

lemma hash_less_firstByte:
  assumes "h < (h' :: Buffer)" and "h \<noteq> []"
  shows "firstByte h \<le> firstByte h'"
proof (cases h)
  case Nil
  with assms show ?thesis by simp
next
  case h: (Cons x xs)
  show ?thesis
  proof (cases h')
    case Nil
    with assms show ?thesis by simp
  next
    case (Cons y ys)
    with h assms(1) have "x \<le> y" by (auto simp: less_le)
    then show ?thesis by (simp add: firstByte_def h Cons word_le_nat_alt)
  qed
qed

lemma sorted_firstBytes:
  assumes "sorted_wrt (<) hashes" and "list_all (\<lambda>h. length h = 20) hashes"
    and "j \<le> i" and "i < length hashes"
  shows "firstByte (hashes ! j) \<le> firstByte (hashes ! i)"
proof (cases "j = i")
  case True
  then show ?thesis by simp
next
  case False
  with assms(3) have "j < i" by simp
  with assms(1,4) have "hashes ! j < hashes ! i" by (simp add: sorted_wrt_nth_less)
  moreover have "length (hashes ! j) = 20"
    using assms(2,3,4) by (simp add: list_all_length)
  then have "hashes ! j \<noteq> []" by auto
  ultimately show ?thesis by (rule hash_less_firstByte)
qed

lemma sorted_filter_takeWhile:
  assumes "sorted_wrt (<) hashes" and "list_all (\<lambda>h. length h = 20) hashes"
  shows "filter (\<lambda>h. firstByte h \<le> b) hashes = takeWhile (\<lambda>h. firstByte h \<le> b) hashes"
  using assms
proof (induction hashes)
  case Nil
  then show ?case by simp
next
  case (Cons h hs)
  show ?case
  proof (cases "firstByte h \<le> b")
    case True
    with Cons show ?thesis by simp
  next
    case False
    have "\<not> firstByte h' \<le> b" if "h' \<in> set hs" for h'
    proof -
      from that Cons.prems have "h < h'" by simp
      moreover have "h \<noteq> []" using Cons.prems(2) by auto
      ultimately have "firstByte h \<le> firstByte h'" by (rule hash_less_firstByte)
      with False show ?thesis by simp
    qed
    then have "filter (\<lambda>h. firstByte h \<le> b) hs = []" by (simp add: filter_empty_conv)
    with False show ?thesis by simp
  qed
qed

lemma bucket_upper:
  assumes "sorted_wrt (<) hashes" and "list_all (\<lambda>h. length h = 20) hashes"
    and "i < length hashes"
  shows "i < fanout hashes (firstByte (hashes ! i))"
proof -
  let ?P = "\<lambda>h. firstByte h \<le> firstByte (hashes ! i)"
  have "Suc i \<le> length (takeWhile ?P hashes)"
  proof (rule length_takeWhile_less_P_nth)
    show "Suc i \<le> length hashes" using assms(3) by simp
    show "?P (hashes ! j)" if "j < Suc i" for j
      using sorted_firstBytes [OF assms(1,2) _ assms(3), of j] that by simp
  qed
  then show ?thesis
    by (simp add: fanout_def sorted_filter_takeWhile [OF assms(1,2)])
qed

lemma bucket_lower:
  assumes "sorted_wrt (<) hashes" and "list_all (\<lambda>h. length h = 20) hashes"
    and "i < length hashes" and "b < firstByte (hashes ! i)"
  shows "fanout hashes b \<le> i"
proof (rule ccontr)
  let ?P = "\<lambda>h. firstByte h \<le> b"
  assume "\<not> fanout hashes b \<le> i"
  then have lt: "i < length (takeWhile ?P hashes)"
    by (simp add: fanout_def sorted_filter_takeWhile [OF assms(1,2)])
  then have "takeWhile ?P hashes ! i = hashes ! i" by (rule takeWhile_nth)
  moreover have "takeWhile ?P hashes ! i \<in> set (takeWhile ?P hashes)"
    using lt by (rule nth_mem)
  ultimately have "?P (hashes ! i)" by (auto dest: set_takeWhileD)
  with assms(4) show False by simp
qed

lemma length_idxV2 [simp]: "length idxV2 = 8"
  by (simp add: idxV2_def)

lemma fanout_read:
  assumes "length hashes < 2 ^ 32" and "k < 256" and "pos + rel = 8 + 4 * int k"
  shows "Reader_readUInt32BE (idxReader (indexFile hashes crcs offsets trailer) pos tr) rel
           = Inr (fanout hashes k,
                  idxReader (indexFile hashes crcs offsets trailer) (pos + rel + 4) (tr @ [pos + rel]))"
proof -
  let ?file = "indexFile hashes crcs offsets trailer"
  let ?vs = "map (fanout hashes) [0..<256]"
  let ?post = "concat hashes @ concat (map be32 crcs) @ concat (map be32 offsets) @ trailer"
  have "Reader_readUInt32BE (idxReader ?file pos tr) rel
          = Inr (?vs ! k, (idxReader ?file pos tr)\<lparr>offset := offset (idxReader ?file pos tr) + rel + 4,
                    trace := trace (idxReader ?file pos tr) @ [offset (idxReader ?file pos tr) + rel]\<rparr>)"
  proof (rule read_table_entry [where pre = idxV2 and post = ?post])
    show "fd (idxReader ?file pos tr) = idxV2 @ concat (map be32 ?vs) @ ?post"
      by (simp add: indexFile_def comp_def)
    show "offset (idxReader ?file pos tr) + rel = int (length idxV2) + 4 * int k"
      using assms(3) by simp
    show "k < length ?vs" using assms(2) by simp
    have "fanout hashes k < 2 ^ 32"
      using fanout_le [of hashes k] assms(1) by simp
    then show "?vs ! k < 2 ^ 32" using assms(2) by simp
    show "4 \<le> maxReadSize (idxReader ?file pos tr)" by simp
  qed
  then show ?thesis using assms(2) by simp
qed

lemma length_fanout_table [simp]:
  "length (concat (map (\<lambda>b. be32 (fanout hashes b)) [0..<256])) = 1024"
proof -
  have "list_all (\<lambda>x. length x = 4) (map (\<lambda>b. be32 (fanout hashes b)) [0..<256])"
    by (simp add: list_all_iff)
  from concat_chunks_length [OF this] show ?thesis by simp
qed

lemma hash_read:
  assumes "list_all (\<lambda>h. length h = 20) hashes" and "j < length hashes"
  shows "Reader_read (idxReader (indexFile hashes crcs offsets trailer) (1032 + 20 * int j) tr) 20
           = Inr (hashes ! j,
                  idxReader (indexFile hashes crcs offsets trailer) (1032 + 20 * int j + 20)
                    (tr @ [1032 + 20 * int j]))"
proof -
  let ?file = "indexFile hashes crcs offsets trailer"
  let ?pre = "idxV2 @ concat (map (\<lambda>b. be32 (fanout hashes b)) [0..<256])"
  let ?post = "concat (map be32 crcs) @ concat (map be32 offsets) @ trailer"
  let ?r = "idxReader ?file (1032 + 20 * int j) tr"
  have "Reader_read ?r 20
          = Inr (take 20 (drop (20 * j) (concat hashes)),
                 ?r\<lparr>offset := offset ?r + int 20, trace := trace ?r @ [offset ?r]\<rparr>)"
  proof (rule read_region [where pre = ?pre and post = ?post])
    show "fd ?r = ?pre @ concat hashes @ ?post" by (simp add: indexFile_def)
    show "offset ?r = int (length ?pre) + int (20 * j)" by simp
    show "20 * j + 20 \<le> length (concat hashes)"
      using assms(2) by (simp add: concat_chunks_length [OF assms(1)])
    show "20 \<le> maxReadSize ?r" by simp
  qed
  then show ?thesis using concat_chunks_nth [OF assms] by simp
qed

lemma offset_read:
  assumes "list_all (\<lambda>h. length h = 20) hashes"
    and "length crcs = length hashes" and "length offsets = length hashes"
    and "i < length hashes" and "offsets ! i < 2 ^ 32"
  shows "Reader_readUInt32BE
           (idxReader (indexFile hashes crcs offsets trailer)
              (1032 + 24 * int (length hashes) + 4 * int i) tr) 0
           = Inr (offsets ! i,
                  idxReader (indexFile hashes crcs offsets trailer)
                    (1032 + 24 * int (length hashes) + 4 * int i + 4)
                    (tr @ [1032 + 24 * int (length hashes) + 4 * int i]))"
proof -
  let ?file = "indexFile hashes crcs offsets trailer"
  let ?pre = "idxV2 @ concat (map (\<lambda>b. be32 (fanout hashes b)) [0..<256]) @ concat hashes
                @ concat (map be32 crcs)"
  let ?r = "idxReader ?file (1032 + 24 * int (length hashes) + 4 * int i) tr"
  have crc: "list_all (\<lambda>x. length x = 4) (map be32 crcs)" by (simp add: list_all_iff)
  have pre: "length ?pre = 1032 + 24 * length hashes"
    using assms(2) by (simp add: concat_chunks_length [OF assms(1)] concat_chunks_length [OF crc])
  have "Reader_readUInt32BE ?r 0
          = Inr (offsets ! i, ?r\<lparr>offset := offset ?r + 0 + 4, trace := trace ?r @ [offset ?r + 0]\<rparr>)"
  proof (rule read_table_entry [where pre = ?pre and post = trailer])
    show "fd ?r = ?pre @ concat (map be32 offsets) @ trailer" by (simp add: indexFile_def)
    show "offset ?r + 0 = int (length ?pre) + 4 * int i" by (simp only: pre) simp
    show "i < length offsets" using assms(3,4) by simp
    show "offsets ! i < 2 ^ 32" by (rule assms(5))
    show "4 \<le> maxReadSize ?r" by simp
  qed
  then show ?thesis by simp
qed

lemma scanBucket_found:
  assumes sorted: "sorted_wrt (<) hashes" and len20: "list_all (\<lambda>h. length h = 20) hashes"
    and crcs: "length crcs = length hashes" and offs: "length offsets = length hashes"
    and t: "t < length hashes" and v: "offsets ! t < 2 ^ 32"
    and lo: "start + i \<le> t" and hi: "int t < int start + len"
  shows "scanBucket (hashes ! t)
           (idxReader (indexFile hashes crcs offsets trailer) (1032 + 20 * int (start + i)) tr)
           (length hashes) start len i
         = Inr (Some (offsets ! t),
                idxReader (indexFile hashes crcs offsets trailer)
                  (1032 + 24 * int (length hashes) + 4 * int t + 4)
                  (tr @ map (\<lambda>j. 1032 + 20 * int j) [start + i..<Suc t]
                      @ [1032 + 24 * int (length hashes) + 4 * int t]))"
  using lo hi
proof (induction "t - (start + i)" arbitrary: i tr)
  case 0
  then have eq: "start + i = t" by simp
  have inb: "int i < len" using "0.prems"(2) eq by linarith
  let ?file = "indexFile hashes crcs offsets trailer"
  have rd: "Reader_read (idxReader ?file (1032 + 20 * int (start + i)) tr) 20
              = Inr (hashes ! t, idxReader ?file (1032 + 20 * int t + 20) (tr @ [1032 + 20 * int t]))"
    using hash_read [OF len20 t, of crcs offsets trailer tr] eq by simp
  have pos: "1032 + 20 * int t + 20 + 20 * (int (length hashes) - int i - int start - 1)
               + 4 * int (length hashes) + 4 * (int i + int start)
             = 1032 + 24 * int (length hashes) + 4 * int t"
  proof -
    from eq have "int (start + i) = int t" by simp
    then have "int t = int start + int i" by simp
    then show ?thesis by (simp add: algebra_simps)
  qed
  have upt: "[start + i..<Suc t] = [t]" using eq by simp
  show ?case
    apply (subst scanBucket.simps)
    apply (simp only: inb if_True rd sum.case prod.case Let_def Reader_seek_def
        Reader.simps simp_thms pos upt list.map append_Cons append_Nil append_assoc)
    apply (simp only: offset_read [OF len20 crcs offs t v] sum.case prod.case)
    apply simp
    done
next
  case (Suc d)
  then have lt: "start + i < t" by simp
  then have j: "start + i < length hashes" using t by simp
  have inb: "int i < len" using Suc.prems(2) lt by linarith
  let ?file = "indexFile hashes crcs offsets trailer"
  have ne: "hashes ! (start + i) \<noteq> hashes ! t"
    using sorted_wrt_nth_less [OF sorted lt t] by simp
  have rd: "Reader_read (idxReader ?file (1032 + 20 * int (start + i)) tr) 20
              = Inr (hashes ! (start + i),
                     idxReader ?file (1032 + 20 * int (start + (i + 1)))
                       (tr @ [1032 + 20 * int (start + i)]))"
    using hash_read [OF len20 j, of crcs offsets trailer tr] by simp
  have IH: "scanBucket (hashes ! t)
              (idxReader ?file (1032 + 20 * int (start + (i + 1))) (tr @ [1032 + 20 * int (start + i)]))
              (length hashes) start len (i + 1)
            = Inr (Some (offsets ! t),
                   idxReader ?file (1032 + 24 * int (length hashes) + 4 * int t + 4)
                     ((tr @ [1032 + 20 * int (start + i)])
                        @ map (\<lambda>j. 1032 + 20 * int j) [start + (i + 1)..<Suc t]
                        @ [1032 + 24 * int (length hashes) + 4 * int t]))"
  proof (rule Suc.hyps(1))
    show "d = t - (start + (i + 1))" using Suc.hyps(2) by simp
    show "start + (i + 1) \<le> t" using lt by simp
    show "int t < int start + len" by (rule Suc.prems(2))
  qed
  have upt: "[start + i..<Suc t] = (start + i) # [start + (i + 1)..<Suc t]"
    using lt by (simp add: upt_conv_Cons)
  show ?case
    apply (subst scanBucket.simps)
    apply (simp only: inb if_True rd sum.case prod.case ne simp_thms IH upt list.map
        append_Cons append_Nil append_assoc)
    done
qed

lemma scanBucket_not_found:
  assumes len20: "list_all (\<lambda>h. length h = 20) hashes"
    and bound: "int start + len \<le> int (length hashes)"
    and absent: "\<And>j. start + i \<le> j \<Longrightarrow> int j < int start + len \<Longrightarrow> hashes ! j \<noteq> oid"
  shows "\<exists>r'. scanBucket oid
           (idxReader (indexFile hashes crcs offsets trailer) (1032 + 20 * int (start + i)) tr)
           (length hashes) start len i = Inr (None, r')"
  using absent
proof (induction "nat (len - int i)" arbitrary: i tr)
  case 0
  then have "\<not> int i < len" by simp
  then show ?case by (subst scanBucket.simps) simp
next
  case (Suc d)
  then have inb: "int i < len" by linarith
  with bound have j: "start + i < length hashes" by linarith
  let ?file = "indexFile hashes crcs offsets trailer"
  have ne: "hashes ! (start + i) \<noteq> oid" using Suc.prems [of "start + i"] inb by simp
  have rd: "Reader_read (idxReader ?file (1032 + 20 * int (start + i)) tr) 20
              = Inr (hashes ! (start + i),
                     idxReader ?file (1032 + 20 * int (start + (i + 1)))
                       (tr @ [1032 + 20 * int (start + i)]))"
    using hash_read [OF len20 j, of crcs offsets trailer tr] by simp
  have "\<exists>r'. scanBucket oid
           (idxReader ?file (1032 + 20 * int (start + (i + 1))) (tr @ [1032 + 20 * int (start + i)]))
           (length hashes) start len (i + 1) = Inr (None, r')"
  proof (rule Suc.hyps(1))
    show "d = nat (len - int (i + 1))" using Suc.hyps(2) by linarith
    show "hashes ! j \<noteq> oid" if "start + (i + 1) \<le> j" and "int j < int start + len" for j
      using Suc.prems [of j] that by simp
  qed
  then obtain r' where "scanBucket oid
           (idxReader ?file (1032 + 20 * int (start + (i + 1))) (tr @ [1032 + 20 * int (start + i)]))
           (length hashes) start len (i + 1) = Inr (None, r')" by blast
  then have "scanBucket oid (idxReader ?file (1032 + 20 * int (start + i)) tr)
               (length hashes) start len i = Inr (None, r')"
    apply (subst scanBucket.simps)
    apply (simp only: inb if_True rd sum.case prod.case ne simp_thms)
    done
  then show ?case by blast
qed

lemma seek_idxReader:
  "Reader_seek (idxReader contents pos tr) n = idxReader contents (pos + n) tr"
  by (simp add: Reader_seek_def)

lemma getOidFromIdx_bucket:
  assumes n: "length hashes < 2 ^ 32"
  shows "getOidFromIdx (first # rest) (idxReader (indexFile hashes crcs offsets trailer) 8 tr)
           = scanBucket (first # rest)
               (idxReader (indexFile hashes crcs offsets trailer)
                  (1032 + 20 * int (bucketStart hashes (unat first)))
                  (tr @ boundsTrace (unat first)))
               (length hashes) (bucketStart hashes (unat first))
               (int (fanout hashes (unat first)) - int (bucketStart hashes (unat first))) 0"
proof -
  let ?file = "indexFile hashes crcs offsets trailer"
  let ?f = "unat first"
  have f: "?f < 256" using unsigned_less [of first, where 'a = nat] by simp
  have rdN: "\<And>tr'. Reader_readUInt32BE (idxReader ?file 1028 tr') 0
               = Inr (length hashes, idxReader ?file 1032 (tr' @ [1028]))"
    using fanout_read [OF n, of 255 1028 0 crcs offsets trailer] by (simp add: fanout_255)
  show ?thesis
  proof (cases "first = 0")
    case True
    then have f0: "?f = 0" by simp
    have rdEnd: "Reader_readUInt32BE (idxReader ?file 8 tr) 0
               = Inr (fanout hashes 0, idxReader ?file 12 (tr @ [8]))"
      using fanout_read [OF n, of 0 8 0 crcs offsets trailer tr] by simp
    have seek: "(12::int) + 4 * (255 - int 0 - 1) = 1028" by simp
    have "getOidFromIdx (first # rest) (idxReader ?file 8 tr)
            = scanBucket (first # rest) (idxReader ?file (1032 + 20 * int 0) ((tr @ [8]) @ [1028]))
                (length hashes) 0 (int (fanout hashes 0) - int 0) 0"
      unfolding getOidFromIdx_def
      by (simp only: list.case True f0 unsigned_0 simp_thms if_True sum.case prod.case rdEnd
          Let_def seek_idxReader seek rdN)
    then show ?thesis by (simp add: f0 True bucketStart_def boundsTrace_def)
  next
    case False
    then have fpos: "0 < ?f" by (simp add: unat_gt_0)
    have "Reader_readUInt32BE (idxReader ?file 8 tr) (4 * (int ?f - 1))
            = Inr (fanout hashes (?f - 1),
                   idxReader ?file (8 + 4 * (int ?f - 1) + 4) (tr @ [8 + 4 * (int ?f - 1)]))"
      using f fpos by (intro fanout_read [OF n]) simp_all
    moreover have "8 + 4 * (int ?f - 1) + 4 = 8 + 4 * int ?f" by simp
    ultimately have rdStart: "Reader_readUInt32BE (idxReader ?file 8 tr) (4 * (int ?f - 1))
            = Inr (fanout hashes (?f - 1),
                   idxReader ?file (8 + 4 * int ?f) (tr @ [8 + 4 * (int ?f - 1)]))"
      by (simp only:)
    have rdEnd: "\<And>tr'. Reader_readUInt32BE (idxReader ?file (8 + 4 * int ?f) tr') 0
               = Inr (fanout hashes ?f, idxReader ?file (8 + 4 * int ?f + 4) (tr' @ [8 + 4 * int ?f]))"
      using fanout_read [OF n f, of "8 + 4 * int ?f" 0 crcs offsets trailer] by simp
    have seek: "8 + 4 * int ?f + 4 + 4 * (255 - int ?f - 1) = 1028" by simp
    have "getOidFromIdx (first # rest) (idxReader ?file 8 tr)
            = scanBucket (first # rest)
                (idxReader ?file (1032 + 20 * int (fanout hashes (?f - 1)))
                   (((tr @ [8 + 4 * (int ?f - 1)]) @ [8 + 4 * int ?f]) @ [1028]))
                (length hashes) (fanout hashes (?f - 1))
                (int (fanout hashes ?f) - int (fanout hashes (?f - 1))) 0"
      unfolding getOidFromIdx_def
      by (simp only: list.case False if_False sum.case prod.case rdStart rdEnd Let_def
          seek_idxReader seek rdN)
    moreover have "int (?f - 1) = int ?f - 1" using fpos by (simp add: of_nat_diff)
    ultimately show ?thesis using fpos by (simp add: bucketStart_def boundsTrace_def)
  qed
qed

lemma getOidFromIdx_found:
  assumes sorted: "sorted_wrt (<) hashes" and len20: "list_all (\<lambda>h. length h = 20) hashes"
    and n: "length hashes < 2 ^ 32"
    and crcs: "length crcs = length hashes" and offs: "length offsets = length hashes"
    and i: "i < length hashes" and v: "offsets ! i < 2 ^ 32"
  shows "getOidFromIdx (hashes ! i) (idxReader (indexFile hashes crcs offsets trailer) 8 tr)
           = Inr (Some (offsets ! i),
                  idxReader (indexFile hashes crcs offsets trailer)
                    (1032 + 24 * int (length hashes) + 4 * int i + 4)
                    (tr @ boundsTrace (firstByte (hashes ! i))
                        @ map (\<lambda>j. 1032 + 20 * int j)
                            [bucketStart hashes (firstByte (hashes ! i))..<Suc i]
                        @ [1032 + 24 * int (length hashes) + 4 * int i]))"
proof -
  have "length (hashes ! i) = 20" using len20 i by (simp add: list_all_length)
  then obtain first rest where h: "hashes ! i = first # rest" by (cases "hashes ! i") auto
  then have fb: "firstByte (hashes ! i) = unat first" by (simp add: firstByte_def)
  let ?f = "unat first"
  have lo: "bucketStart hashes ?f \<le> i"
  proof (cases "?f = 0")
    case True
    then show ?thesis by (simp add: bucketStart_def)
  next
    case False
    then have "fanout hashes (?f - 1) \<le> i"
      using fb by (intro bucket_lower [OF sorted len20 i]) simp
    with False show ?thesis by (simp add: bucketStart_def)
  qed
  have hi: "i < fanout hashes ?f" using bucket_upper [OF sorted len20 i] fb by simp
  have "scanBucket (hashes ! i)
          (idxReader (indexFile hashes crcs offsets trailer)
             (1032 + 20 * int (bucketStart hashes ?f + 0)) (tr @ boundsTrace ?f))
          (length hashes) (bucketStart hashes ?f)
          (int (fanout hashes ?f) - int (bucketStart hashes ?f)) 0
        = Inr (Some (offsets ! i),
               idxReader (indexFile hashes crcs offsets trailer)
                 (1032 + 24 * int (length hashes) + 4 * int i + 4)
                 ((tr @ boundsTrace ?f)
                    @ map (\<lambda>j. 1032 + 20 * int j) [bucketStart hashes ?f + 0..<Suc i]
                    @ [1032 + 24 * int (length hashes) + 4 * int i]))"
    using lo hi by (intro scanBucket_found [OF sorted len20 crcs offs i v]) simp_all
  moreover have "firstByte (first # rest) = unat first" by (simp add: firstByte_def)
  ultimately show ?thesis
    using getOidFromIdx_bucket [OF n, of first rest crcs offsets trailer tr]
    by (simp add: h)
qed

lemma getOidFromIdx_not_found:
  assumes len20: "list_all (\<lambda>h. length h = 20) hashes" and n: "length hashes < 2 ^ 32"
    and x: "x \<noteq> []" and absent: "x \<notin> set hashes"
  shows "\<exists>r'. getOidFromIdx x (idxReader (indexFile hashes crcs offsets trailer) 8 tr)
           = Inr (None, r')"
proof -
  from x obtain first rest where h: "x = first # rest" by (cases x) auto
  let ?f = "unat first"
  let ?start = "bucketStart hashes ?f"
  have le: "?start \<le> fanout hashes ?f"
    by (simp add: bucketStart_def fanout_mono)
  have "\<exists>r'. scanBucket x
          (idxReader (indexFile hashes crcs offsets trailer)
             (1032 + 20 * int (?start + 0)) (tr @ boundsTrace ?f))
          (length hashes) ?start (int (fanout hashes ?f) - int ?start) 0 = Inr (None, r')"
  proof (rule scanBucket_not_found [OF len20])
    show "int ?start + (int (fanout hashes ?f) - int ?start) \<le> int (length hashes)"
      using fanout_le [of hashes ?f] by simp
    show "hashes ! j \<noteq> x"
      if "?start + 0 \<le> j" and "int j < int ?start + (int (fanout hashes ?f) - int ?start)" for j
    proof -
      from that(2) have "j < length hashes" using fanout_le [of hashes ?f] by simp
      then have "hashes ! j \<in> set hashes" by simp
      with absent show ?thesis by auto
    qed
  qed
  then show ?thesis
    using getOidFromIdx_bucket [OF n, of first rest crcs offsets trailer tr]
    by (simp add: h)
qed

lemma read_signature:
  "Reader_read (new_Reader (indexFile hashes crcs offsets trailer) 20) 8
     = Inr (idxV2, idxReader (indexFile hashes crcs offsets trailer) 8 [0])"
proof -
  let ?file = "indexFile hashes crcs offsets trailer"
  let ?post = "concat (map (\<lambda>b. be32 (fanout hashes b)) [0..<256]) @ concat hashes
                 @ concat (map be32 crcs) @ concat (map be32 offsets) @ trailer"
  let ?r = "new_Reader ?file 20"
  have "Reader_read ?r 8
          = Inr (take 8 (drop 0 idxV2), ?r\<lparr>offset := offset ?r + int 8, trace := trace ?r @ [offset ?r]\<rparr>)"
  proof (rule read_region [where pre = "[]" and post = ?post])
    show "fd ?r = [] @ idxV2 @ ?post" by (simp add: new_Reader_def indexFile_def)
    show "offset ?r = int (length ([] :: Buffer)) + int 0" by (simp add: new_Reader_def)
    show "0 + 8 \<le> length idxV2" by simp
    show "8 \<le> maxReadSize ?r" by (simp add: new_Reader_def)
  qed
  then show ?thesis by (simp add: new_Reader_def)
qed

lemma searchGitIndex_found:
  assumes "sorted_wrt (<) hashes" and "list_all (\<lambda>h. length h = 20) hashes"
    and "length hashes < 2 ^ 32"
    and "length crcs = length hashes" and "length offsets = length hashes"
    and "i < length hashes" and "offsets ! i < 2 ^ 32"
  shows "searchGitIndex (indexFile hashes crcs offsets trailer) (hashes ! i)
           = Inr (if offsets ! i = 0 then None else Some (offsets ! i))"
  by (simp add: searchGitIndex_def read_signature getOidFromIdx_found [OF assms])

lemma searchGitIndex_not_found:
  assumes "list_all (\<lambda>h. length h = 20) hashes" and "length hashes < 2 ^ 32"
    and "x \<noteq> []" and "x \<notin> set hashes"
  shows "searchGitIndex (indexFile hashes crcs offsets trailer) x = Inr None"
proof -
  from getOidFromIdx_not_found [OF assms, of crcs offsets trailer "[0]"]
  obtain r' where "getOidFromIdx x (idxReader (indexFile hashes crcs offsets trailer) 8 [0])
                     = Inr (None, r')" by blast
  then show ?thesis by (simp add: searchGitIndex_def read_signature)
qed

section \<open>Properties of the pack header decoders\<close>





text \<open>A packed length of at most four bytes stays below \<open>2 ^ 31\<close>: the 32-bit result
  is the unbounded one, read as a non-negative number.\<close>

lemma unat_chunk7: "unat (chunk7 b) = unat b mod 128"
proof -
  have "(0x7F :: 32 word) = mask 7" by (simp add: mask_eq_exp_minus_1)
  then have "chunk7 b = take_bit 7 (ucast b :: 32 word)"
    by (simp add: chunk7_def take_bit_eq_mask)
  then have "unat (chunk7 b) = unat (ucast b :: 32 word) mod 2 ^ 7"
    by (simp add: take_bit_eq_mod unat_mod)
  moreover have "unat (ucast b :: 32 word) = unat b"
  proof -
    have "uint (ucast b :: 32 word) = uint b" by (simp add: uint_up_ucast is_up)
    then show ?thesis by (simp only: unat_eq_nat_uint)
  qed
  ultimately show ?thesis by simp
qed

lemma packed_step:
  fixes a c :: "32 word"
  assumes "unat a + 1 < 2 ^ 25" and "unat c < 128"
  shows "unat (push_bit 7 (a + 1) OR c) = (unat a + 1) * 128 + unat c"
proof -
  have a1: "unat (a + 1) = unat a + 1"
    using assms(1) by (simp add: unat_word_ariths)
  have sh: "unat (push_bit 7 (a + 1)) = (unat a + 1) * 128"
    using assms(1) a1 by (simp add: push_bit_eq_mult unat_word_ariths)
  have c: "c = take_bit 7 c"
    using assms(2) by (simp add: take_bit_eq_mod word_eq_iff_unsigned [where 'a = nat] unat_mod)
  have "push_bit 7 (a + 1) OR c = push_bit 7 (a + 1) + c"
  proof (rule disjunctive_add [symmetric])
    fix n
    show "\<not> bit (push_bit 7 (a + 1)) n \<or> \<not> bit c n"
      by (subst c) (auto simp: bit_push_bit_iff bit_take_bit_iff)
  qed
  moreover have "unat (push_bit 7 (a + 1) + c) = (unat a + 1) * 128 + unat c"
    using assms sh by (simp add: unat_word_ariths)
  ultimately show ?thesis by simp
qed

lemma packed_fold:
  fixes a :: "32 word"
  assumes "(unat a + 3) * 128 ^ length bs \<le> 2 ^ 31"
  shows "unat (foldl (\<lambda>acc b. push_bit 7 (acc + 1) OR chunk7 b) a bs)
           = foldl (\<lambda>acc b. (acc + 1) * 128 + unat b mod 128) (unat a) bs
         \<and> unat (foldl (\<lambda>acc b. push_bit 7 (acc + 1) OR chunk7 b) a bs) + 3 \<le> 2 ^ 31"
  using assms
proof (induction bs arbitrary: a)
  case Nil
  then show ?case by simp
next
  case (Cons b bs)
  let ?a' = "push_bit 7 (a + 1) OR chunk7 b"
  define N :: nat where "N = 128 ^ length bs"
  have N: "1 \<le> N" by (simp add: N_def)
  have s1: "(unat a + 3) * 128 \<le> (unat a + 3) * 128 * N"
    using mult_le_mono2 [OF N, of "(unat a + 3) * 128"] by simp
  have "(unat a + 3) * 128 ^ length (b # bs) = (unat a + 3) * 128 * N"
    by (simp add: N_def)
  with Cons.prems have s2: "(unat a + 3) * 128 * N \<le> 2 ^ 31" by (simp only:)
  from le_trans [OF s1 s2] have small: "(unat a + 3) * 128 \<le> 2 ^ 31" .
  then have a: "unat a + 1 < 2 ^ 25" by simp
  have c: "unat (chunk7 b) < 128" by (simp add: unat_chunk7)
  have step: "unat ?a' = (unat a + 1) * 128 + unat b mod 128"
    using packed_step [OF a c] by (simp add: unat_chunk7)
  have "unat b mod 128 < 128" by simp
  then have "unat ?a' + 3 \<le> (unat a + 3) * 128" unfolding step by (simp add: algebra_simps)
  then have "(unat ?a' + 3) * N \<le> (unat a + 3) * 128 * N"
    by (rule mult_le_mono1)
  from le_trans [OF this s2] have "(unat ?a' + 3) * 128 ^ length bs \<le> 2 ^ 31"
    by (simp only: N_def)
  from Cons.IH [OF this] show ?case by (simp add: step)
qed

lemma packedLength_small:
  assumes "bs \<noteq> []" and "length bs \<le> 4"
  shows "sint (packedLength bs) = int (packedValue bs)"
proof -
  from assms(1) obtain b bs' where bs: "bs = b # bs'" by (cases bs) auto
  have "unat (chunk7 b) + 3 \<le> 130" by (simp add: unat_chunk7)
  then have "(unat (chunk7 b) + 3) * 128 ^ length bs' \<le> 130 * 128 ^ length bs'"
    by (rule mult_le_mono1)
  also have "(128 :: nat) ^ length bs' \<le> 128 ^ 3"
    using assms(2) bs by (intro power_increasing) simp_all
  then have "130 * (128 :: nat) ^ length bs' \<le> 130 * 128 ^ 3" by simp
  also have "130 * (128 :: nat) ^ 3 \<le> 2 ^ 31" by simp
  finally have "(unat (chunk7 b) + 3) * 128 ^ length bs' \<le> 2 ^ 31" .
  from packed_fold [OF this]
  have v: "unat (packedLength bs) = packedValue bs" and small: "unat (packedLength bs) + 3 \<le> 2 ^ 31"
    by (simp_all add: packedLength_def packedValue_def bs unat_chunk7)
  from small have "unat (packedLength bs) < 2147483648" by simp
  then have "int (unat (packedLength bs)) < 2147483648" by linarith
  then have lt: "uint (packedLength bs) < 2 ^ 31" by simp
  have ge: "- (2 ^ 31) \<le> uint (packedLength bs)"
    by (rule order_trans [of _ 0]) simp_all
  have "signed_take_bit 31 (uint (packedLength bs)) = uint (packedLength bs)"
    using ge lt by (rule signed_take_bit_int_eq_self)
  then have "sint (packedLength bs) = uint (packedLength bs)"
    by (simp add: sint_uint)
  also have "\<dots> = int (unat (packedLength bs))" by simp
  finally show ?thesis by (simp only: v)
qed

section \<open>Properties of the pack reader, the inflater and the directory scan\<close>







lemma peek_error: "Reader_peek r n = Inl e \<Longrightarrow> e = ERR_OUT_OF_RANGE"
  by (auto simp: Reader_peek_def readSync_def split: if_splits)

lemma inflateLoop_error:
  assumes "inflateLoop zl outSize chunkSize st = Some res"
  shows "\<forall>e z r. res = (Inl e, z, r) \<longrightarrow> e = ERR_OUT_OF_RANGE"
proof (rule inflateLoop.raw_induct
    [where P = "\<lambda>zl outSize chunkSize st res. \<forall>e z r. res = (Inl e, z, r) \<longrightarrow> e = ERR_OUT_OF_RANGE",
     OF _ assms])
  fix f :: "'a ZlibBinding \<Rightarrow> int \<Rightarrow> nat \<Rightarrow> 'a \<times> Reader \<times> Buffer \<times> int \<times> int
              \<Rightarrow> ((error + Buffer) \<times> 'a \<times> Reader) option"
    and zl outSize chunkSize st res
  assume IH: "\<And>zl outSize chunkSize st res. f zl outSize chunkSize st = Some res
                \<Longrightarrow> \<forall>e z r. res = (Inl e, z, r) \<longrightarrow> e = ERR_OUT_OF_RANGE"
    and step: "(case st of
        (z, reader, output, totalInflated, outOffset) \<Rightarrow>
          if totalInflated < outSize
          then (case Reader_peek reader chunkSize of
                  Inl e \<Rightarrow> Some (Inl e, z, reader)
                | Inr (chunk, r1) \<Rightarrow>
                    (let r2 = Reader_seek r1 (int (length chunk))
                     in case inflateChunk zl chunk
                               (z, output, 0, outOffset, totalInflated, int (length chunk),
                                outSize - outOffset) of
                          None \<Rightarrow> None
                        | Some (z', output', outOffset', totalInflated') \<Rightarrow>
                            f zl outSize chunkSize (z', r2, output', totalInflated', outOffset')))
          else Some (Inr output, z, reader)) = Some res"
  show "\<forall>e z r. res = (Inl e, z, r) \<longrightarrow> e = ERR_OUT_OF_RANGE"
    using step
    by (auto simp: Let_def split: prod.splits if_splits sum.splits option.splits
        dest: peek_error IH)
qed

lemma inflate_open:
  assumes "zlib i \<noteq> None" and "Inflater_inflate zl i reader outSize = Some (res, i', reader')"
  shows "res \<noteq> Inl InflaterClosed" and "zlib i' \<noteq> None" and "released i' = released i"
  using assms
  by (auto simp: Inflater_inflate_def Buffer_allocUnsafe_def Let_def
      split: option.splits sum.splits prod.splits if_splits dest: inflateLoop_error)

lemma inflate_closed:
  assumes "zlib i = None"
  shows "Inflater_inflate zl i reader outSize = Some (Inl InflaterClosed, i, reader)"
  using assms by (simp add: Inflater_inflate_def)

lemma runCalls_invariant:
  assumes "runCalls zl calls i = Some i'"
  shows "(zlib i' = None \<longleftrightarrow> zlib i = None \<or> Close \<in> set calls)
         \<and> released i' = (if zlib i \<noteq> None \<and> Close \<in> set calls then released i + 1
                           else released i)"
  using assms
proof (induction calls arbitrary: i)
  case Nil
  then show ?case by simp
next
  case (Cons c calls)
  show ?case
  proof (cases c)
    case Close
    with Cons.prems have "runCalls zl calls (Inflater_close i) = Some i'" by simp
    from Cons.IH [OF this] Close show ?thesis
      by (auto simp: Inflater_close_def split: option.splits)
  next
    case (Inflate reader outSize)
    with Cons.prems obtain res i1 r1
      where inf: "Inflater_inflate zl i reader outSize = Some (res, i1, r1)"
        and rest: "runCalls zl calls i1 = Some i'"
      by (auto split: option.splits)
    show ?thesis
    proof (cases "zlib i = None")
      case True
      with inf have "i1 = i" by (simp add: inflate_closed)
      with Cons.IH [OF rest] True Inflate show ?thesis by simp
    next
      case False
      from inflate_open(2,3) [OF False inf] Cons.IH [OF rest] False Inflate
      show ?thesis by auto
    qed
  qed
qed

lemma scanPackDir_append:
  assumes "scanPackDir zl depth openSync oid pre = Some (Inr None)"
  shows "scanPackDir zl depth openSync oid (pre @ entries)
           = scanPackDir zl depth openSync oid entries"
  using assms
proof (induction pre)
  case Nil
  then show ?case by simp
next
  case (Cons dirent pre)
  then show ?case
    by (auto split: if_splits option.splits sum.splits prod.splits)
qed

lemma wrong_signature:
  assumes "take 8 contents \<noteq> idxV2"
  shows "searchGitIndex contents oid = Inl UnsupportedIDX"
  using assms
  by (simp add: searchGitIndex_def new_Reader_def Reader_read_def readSync_def)

lemma sample_lookup: "searchGitIndex sampleIndex sampleOid = Inr (Some 12)"
proof -
  have "searchGitIndex (indexFile [sampleOid] [0] [12] []) ([sampleOid] ! 0)
          = Inr (if [12] ! 0 = (0::nat) then None else Some ([12] ! 0))"
    by (rule searchGitIndex_found) (simp_all add: sampleOid_def)
  then show ?thesis by (simp add: sampleIndex_def)
qed

lemma sample_read:
  "readFromPack storedZlib 5 samplePack idxFd 12 (new_Inflater storedZlib)
     = Some (Inr (Commit, [0x61, 0x62, 0x63]), new_Inflater storedZlib)"
  by code_simp

section \<open>Claims about the delta decoder\<close>

text \<open>Claim C5. When \<open>readDeltaOperation\<close> decodes a copy instruction (the opcode
  has its top bit set) and the size field decoded from the presence bits is exactly 0,
  the copy covers the range from \<open>offset\<close> to \<open>offset + 65536\<close> of the base: the size
  used is 65536, never 0. For a non-negative offset the output has 65536 bytes, or as many
  as the base holds after \<open>offset\<close> when those are fewer.\<close>

theorem copy_size_zero_is_65536:
  assumes "Cursor_readByte cursor = (opCode, c1)"
    and "toInt32 opCode AND 0x80 \<noteq> 0"
    and "readCompactNumber c1 (toInt32 opCode AND 0x0F) 4 = (off, c2)"
    and "readCompactNumber c2 (signed_drop_bit 4 (toInt32 opCode AND 0x70)) 3 = (0, c3)"
  shows "readDeltaOperation cursor source = (subarray source off (off + 65536), c3)
         \<and> (0 \<le> off \<longrightarrow>
              length (fst (readDeltaOperation cursor source))
                = min 65536 (length source - nat off))"
proof -
  have eq: "readDeltaOperation cursor source = (subarray source off (off + 65536), c3)"
    using assms by (simp add: readDeltaOperation_def)
  have "0 \<le> off \<Longrightarrow> length (subarray source off (off + 65536))
          = min 65536 (length source - nat off)"
    by (auto simp: subarray_def Let_def min_def max_def)
  with eq show ?thesis by simp
qed

text \<open>Witness for C5: the instruction \<open>0x90 0x00\<close> carries an explicit size byte 0;
  on a base of 70000 bytes it copies 65536 of them.\<close>

theorem copy_size_zero_is_65536_witness:
  "readDeltaOperation (new_Cursor [0x90, 0x00]) (replicate 70000 7)
     = (replicate 65536 7, \<lparr>buffer = [0x90, 0x00], position = Some 2, byteLength = 2\<rparr>)"
proof -
  let ?c1 = "\<lparr>buffer = [0x90, 0x00 :: byte], position = Some 1, byteLength = 2\<rparr>"
  let ?c3 = "\<lparr>buffer = [0x90, 0x00 :: byte], position = Some 2, byteLength = 2\<rparr>"
  have 1: "Cursor_readByte (new_Cursor [0x90, 0x00]) = (Some 0x90, ?c1)"
    by code_simp
  have 2: "toInt32 (Some 0x90) AND 0x80 \<noteq> 0" by code_simp
  have 3: "readCompactNumber ?c1 (toInt32 (Some 0x90) AND 0x0F) 4 = (0, ?c1)"
    by code_simp
  have 4: "readCompactNumber ?c1 (signed_drop_bit 4 (toInt32 (Some 0x90) AND 0x70)) 3 = (0, ?c3)"
    by code_simp
  have "subarray (replicate 70000 (7::byte)) 0 (0 + 65536) = replicate 65536 7"
    by (simp add: subarray_def)
  with copy_size_zero_is_65536 [OF 1 2 3 4, of "replicate 70000 7"] show ?thesis by simp
qed

text \<open>Claim C9. When the first decoded instruction alone produces exactly the declared
  target size, the early return of \<open>applyOffsetDelta\<close> gives the instruction's output,
  and so does the general path (allocate the target, copy the first output, run the
  loop): the two results are byte-for-byte identical.\<close>

theorem early_return_agrees_with_general_path:
  assumes "readDeltaOperation (deltaInstructions delta) source = (operation, c3)"
    and "int (length operation) = deltaTargetSize delta"
  shows "applyOffsetDelta delta source = Some (Inr operation)
         \<and> generalPath (deltaTargetSize delta) operation c3 source = Some (Inr operation)"
proof -
  have "generalPath (deltaTargetSize delta) operation c3 source
          = Some (Inr (take (nat (deltaTargetSize delta)) (operation @ produced 0 c3 source)))"
    using assms(2) by (intro generalPath_returns) simp_all
  moreover have "nat (deltaTargetSize delta) = length operation" using assms(2) by simp
  ultimately show ?thesis using assms by (simp add: applyOffsetDelta_unfold)
qed

text \<open>Witness for C9: a delta with target size 3 whose first instruction inserts the
  three bytes \<open>abc\<close>.\<close>

theorem early_return_agrees_with_general_path_witness:
  "applyOffsetDelta [3, 3, 3, 0x61, 0x62, 0x63] [] = Some (Inr [0x61, 0x62, 0x63])
   \<and> generalPath 3 [0x61, 0x62, 0x63]
        \<lparr>buffer = [3, 3, 3, 0x61, 0x62, 0x63], position = Some 6, byteLength = 6\<rparr> []
      = Some (Inr [0x61, 0x62, 0x63])"
proof -
  let ?d = "[3, 3, 3, 0x61, 0x62, 0x63] :: Buffer"
  have 1: "readDeltaOperation (deltaInstructions ?d) []
             = ([0x61, 0x62, 0x63], \<lparr>buffer = ?d, position = Some 6, byteLength = 6\<rparr>)"
    by code_simp
  have 2: "deltaTargetSize ?d = 3" by code_simp
  from early_return_agrees_with_general_path [OF 1] 2 show ?thesis by simp
qed

text \<open>Claim C8. \<open>applyOffsetDelta\<close> fails to return exactly when the delta buffer is
  exhausted (after some number of decoded instructions) while fewer bytes than the
  declared target size have been produced. So it terminates whenever the instructions
  produce at least the target size before the buffer runs out, and this precondition is
  necessary: once the buffer has run out early, the fill loop never ends.\<close>

theorem applyOffsetDelta_returns_unless_exhausted_early:
  "applyOffsetDelta delta source = None \<longleftrightarrow>
     (\<exists>n. exhausted (cursorAfter n (deltaInstructions delta) source)
          \<and> int (length (produced n (deltaInstructions delta) source)) < deltaTargetSize delta)"
  by (rule applyOffsetDelta_None_iff)

text \<open>Witness for C8: the delta declares 2 target bytes but holds one instruction
  inserting a single byte; the loop does not return.\<close>

theorem applyOffsetDelta_returns_unless_exhausted_early_witness:
  "applyOffsetDelta [0, 2, 1, 0x41] [] = None"
proof -
  let ?d = "[0, 2, 1, 0x41] :: Buffer"
  have "exhausted (cursorAfter (Suc 0) (deltaInstructions ?d) [])
        \<and> int (length (produced (Suc 0) (deltaInstructions ?d) [])) < deltaTargetSize ?d"
    by code_simp
  then show ?thesis
    using applyOffsetDelta_returns_unless_exhausted_early [of ?d "[]"] by blast
qed

text \<open>Claim C1, as amended. There is no malformed-delta failure in \<open>applyOffsetDelta\<close>:
  when the decoded instructions produce more output than the (non-negative) declared
  target size, the call returns a buffer, namely the first \<open>targetSize\<close> bytes of the
  instructions' output; the excess is dropped.\<close>

theorem applyOffsetDelta_overshoot_is_truncated:
  assumes "0 \<le> deltaTargetSize delta"
    and "deltaTargetSize delta < int (length (produced n (deltaInstructions delta) source))"
  shows "applyOffsetDelta delta source
           = Some (Inr (take (nat (deltaTargetSize delta))
                          (produced n (deltaInstructions delta) source)))"
  using assms by (intro applyOffsetDelta_returns) simp_all

text \<open>Witness for the amended C1: target size 1, one instruction inserting two bytes.\<close>

theorem applyOffsetDelta_overshoot_is_truncated_witness:
  "applyOffsetDelta [0, 1, 2, 0x41, 0x42] [7] = Some (Inr [0x41])"
proof -
  let ?d = "[0, 1, 2, 0x41, 0x42] :: Buffer"
  have 1: "0 \<le> deltaTargetSize ?d" by code_simp
  have 2: "deltaTargetSize ?d < int (length (produced (Suc 0) (deltaInstructions ?d) [7]))"
    by code_simp
  have "take (nat (deltaTargetSize ?d)) (produced (Suc 0) (deltaInstructions ?d) [7]) = [0x41]"
    by code_simp
  with applyOffsetDelta_overshoot_is_truncated [OF 1 2] show ?thesis by simp
qed


text \<open>Counterexample to C1 as stated: the delta declares target size 1, its first
  instruction produces the two bytes \<open>AB\<close>, and \<open>applyOffsetDelta\<close> returns the buffer
  \<open>A\<close> instead of failing.\<close>

theorem malformed_delta_returns_buffer_counterexample:
  "deltaTargetSize [0, 1, 2, 0x41, 0x42] = 1
   \<and> produced (Suc 0) (deltaInstructions [0, 1, 2, 0x41, 0x42]) [] = [0x41, 0x42]
   \<and> applyOffsetDelta [0, 1, 2, 0x41, 0x42] [] = Some (Inr [0x41])"
  by code_simp

section \<open>Claims about the index lookup\<close>

lemma wellFormedIndex_nth:
  assumes "wellFormedIndex hashes crcs offsets" and "i < length hashes"
  shows "0 < offsets ! i" and "offsets ! i < 2 ^ 32"
  using assms by (simp_all add: wellFormedIndex_def list_all_length)

text \<open>Claim C3. For a well-formed version-2 index (strictly ascending 20-byte hashes,
  parallel offsets, cumulative fan-out table), \<open>searchGitIndex\<close> returns exactly the
  offset \<open>offsets ! i\<close> for the hash \<open>hashes ! i\<close>, for every \<open>i\<close>, and returns
  \<open>null\<close> (\<open>None\<close>) for every 20-byte hash that is not in the index, wherever it
  falls in the order.\<close>

theorem index_lookup_correct:
  assumes "wellFormedIndex hashes crcs offsets"
  shows "(i < length hashes \<longrightarrow>
            searchGitIndex (indexFile hashes crcs offsets trailer) (hashes ! i)
              = Inr (Some (offsets ! i)))
         \<and> (length x = 20 \<longrightarrow> x \<notin> set hashes \<longrightarrow>
            searchGitIndex (indexFile hashes crcs offsets trailer) x = Inr None)"
proof (intro conjI impI)
  assume i: "i < length hashes"
  have "searchGitIndex (indexFile hashes crcs offsets trailer) (hashes ! i)
          = Inr (if offsets ! i = 0 then None else Some (offsets ! i))"
    using assms i wellFormedIndex_nth(2) [OF assms i]
    by (intro searchGitIndex_found) (simp_all add: wellFormedIndex_def)
  then show "searchGitIndex (indexFile hashes crcs offsets trailer) (hashes ! i)
               = Inr (Some (offsets ! i))"
    using wellFormedIndex_nth(1) [OF assms i] by simp
next
  assume "length x = 20" and "x \<notin> set hashes"
  moreover from \<open>length x = 20\<close> have "x \<noteq> []" by auto
  ultimately show "searchGitIndex (indexFile hashes crcs offsets trailer) x = Inr None"
    using assms by (intro searchGitIndex_not_found) (simp_all add: wellFormedIndex_def)
qed

text \<open>Witness for C3: an index of three hashes in the buckets \<open>0x01\<close> and
  \<open>0x7F\<close>; the second hash is found, and a hash below all entries, one between the two
  buckets and one above all entries are not found.\<close>

theorem index_lookup_correct_witness:
  "searchGitIndex (indexFile sampleHashes [1, 2, 3] [12, 345, 70000] [])
      [0x01, 0, 0, 0, 0, 0, 0, 0, 0, 0, 0, 0, 0, 0, 0, 0, 0, 0, 0, 1] = Inr (Some 345)
   \<and> searchGitIndex (indexFile sampleHashes [1, 2, 3] [12, 345, 70000] [])
      [0x00, 0, 0, 0, 0, 0, 0, 0, 0, 0, 0, 0, 0, 0, 0, 0, 0, 0, 0, 0] = Inr None
   \<and> searchGitIndex (indexFile sampleHashes [1, 2, 3] [12, 345, 70000] [])
      [0x05, 0, 0, 0, 0, 0, 0, 0, 0, 0, 0, 0, 0, 0, 0, 0, 0, 0, 0, 0] = Inr None
   \<and> searchGitIndex (indexFile sampleHashes [1, 2, 3] [12, 345, 70000] [])
      [0xFF, 0, 0, 0, 0, 0, 0, 0, 0, 0, 0, 0, 0, 0, 0, 0, 0, 0, 0, 0] = Inr None"
proof -
  have wf: "wellFormedIndex sampleHashes [1, 2, 3] [12, 345, 70000]"
    by (simp add: wellFormedIndex_def sampleHashes_def)
  note lookup = index_lookup_correct [OF wf, where trailer = "[]"]
  have "searchGitIndex (indexFile sampleHashes [1, 2, 3] [12, 345, 70000] []) (sampleHashes ! 1)
          = Inr (Some ([12, 345, 70000] ! 1))"
    using lookup [of 1] by (simp add: sampleHashes_def)
  moreover have "searchGitIndex (indexFile sampleHashes [1, 2, 3] [12, 345, 70000] [])
      [0x00, 0, 0, 0, 0, 0, 0, 0, 0, 0, 0, 0, 0, 0, 0, 0, 0, 0, 0, 0] = Inr None"
    using lookup [of _ "[0x00, 0, 0, 0, 0, 0, 0, 0, 0, 0, 0, 0, 0, 0, 0, 0, 0, 0, 0, 0]"]
    by (simp add: sampleHashes_def)
  moreover have "searchGitIndex (indexFile sampleHashes [1, 2, 3] [12, 345, 70000] [])
      [0x05, 0, 0, 0, 0, 0, 0, 0, 0, 0, 0, 0, 0, 0, 0, 0, 0, 0, 0, 0] = Inr None"
    using lookup [of _ "[0x05, 0, 0, 0, 0, 0, 0, 0, 0, 0, 0, 0, 0, 0, 0, 0, 0, 0, 0, 0]"]
    by (simp add: sampleHashes_def)
  moreover have "searchGitIndex (indexFile sampleHashes [1, 2, 3] [12, 345, 70000] [])
      [0xFF, 0, 0, 0, 0, 0, 0, 0, 0, 0, 0, 0, 0, 0, 0, 0, 0, 0, 0, 0] = Inr None"
    using lookup [of _ "[0xFF, 0, 0, 0, 0, 0, 0, 0, 0, 0, 0, 0, 0, 0, 0, 0, 0, 0, 0, 0]"]
    by (simp add: sampleHashes_def)
  ultimately show ?thesis by (simp add: sampleHashes_def)
qed

text \<open>Claim C7. For a hash of a well-formed index whose first byte is 0, the lookup finds
  the hash and returns its offset. The reads it issues are, in order: fan-out entry 0 at
  file position 8 (\<open>start\<close> is taken as 0 without reading: no entry before entry 0 is
  touched, and no position before the table), the last fan-out entry at 1028, the
  hashes from array index 0 up to the match, and the matching offset entry.\<close>

theorem first_byte_zero_bucket:
  assumes "wellFormedIndex hashes crcs offsets" and "i < length hashes"
    and "firstByte (hashes ! i) = 0"
  shows "getOidFromIdx (hashes ! i) (idxReader (indexFile hashes crcs offsets trailer) 8 [])
           = Inr (Some (offsets ! i),
                  idxReader (indexFile hashes crcs offsets trailer)
                    (1032 + 24 * int (length hashes) + 4 * int i + 4)
                    ([8, 1028] @ map (\<lambda>j. 1032 + 20 * int j) [0..<Suc i]
                       @ [1032 + 24 * int (length hashes) + 4 * int i]))
         \<and> searchGitIndex (indexFile hashes crcs offsets trailer) (hashes ! i)
             = Inr (Some (offsets ! i))"
proof
  have "getOidFromIdx (hashes ! i) (idxReader (indexFile hashes crcs offsets trailer) 8 [])
          = Inr (Some (offsets ! i),
                 idxReader (indexFile hashes crcs offsets trailer)
                   (1032 + 24 * int (length hashes) + 4 * int i + 4)
                   ([] @ boundsTrace (firstByte (hashes ! i))
                       @ map (\<lambda>j. 1032 + 20 * int j)
                           [bucketStart hashes (firstByte (hashes ! i))..<Suc i]
                       @ [1032 + 24 * int (length hashes) + 4 * int i]))"
    using assms(1,2) wellFormedIndex_nth(2) [OF assms(1,2)]
    by (intro getOidFromIdx_found) (simp_all add: wellFormedIndex_def)
  then show "getOidFromIdx (hashes ! i) (idxReader (indexFile hashes crcs offsets trailer) 8 [])
           = Inr (Some (offsets ! i),
                  idxReader (indexFile hashes crcs offsets trailer)
                    (1032 + 24 * int (length hashes) + 4 * int i + 4)
                    ([8, 1028] @ map (\<lambda>j. 1032 + 20 * int j) [0..<Suc i]
                       @ [1032 + 24 * int (length hashes) + 4 * int i]))"
    by (simp add: assms(3) boundsTrace_def bucketStart_def)
  have "searchGitIndex (indexFile hashes crcs offsets trailer) (hashes ! i)
          = Inr (if offsets ! i = 0 then None else Some (offsets ! i))"
    using assms(1,2) wellFormedIndex_nth(2) [OF assms(1,2)]
    by (intro searchGitIndex_found) (simp_all add: wellFormedIndex_def)
  then show "searchGitIndex (indexFile hashes crcs offsets trailer) (hashes ! i)
               = Inr (Some (offsets ! i))"
    using wellFormedIndex_nth(1) [OF assms(1,2)] by simp
qed

text \<open>Witness for C7: the second of two hashes with first byte 0.\<close>

theorem first_byte_zero_bucket_witness:
  "getOidFromIdx [0x00, 0, 0, 0, 0, 0, 0, 0, 0, 0, 0, 0, 0, 0, 0, 0, 0, 0, 0, 7]
      (idxReader (indexFile zeroBucketHashes [1, 2, 3] [12, 345, 70000] []) 8 [])
     = Inr (Some 345,
            idxReader (indexFile zeroBucketHashes [1, 2, 3] [12, 345, 70000] []) 1112
              [8, 1028, 1032, 1052, 1108])
   \<and> searchGitIndex (indexFile zeroBucketHashes [1, 2, 3] [12, 345, 70000] [])
        [0x00, 0, 0, 0, 0, 0, 0, 0, 0, 0, 0, 0, 0, 0, 0, 0, 0, 0, 0, 7] = Inr (Some 345)"
proof -
  have wf: "wellFormedIndex zeroBucketHashes [1, 2, 3] [12, 345, 70000]"
    by (simp add: wellFormedIndex_def zeroBucketHashes_def)
  have i: "1 < length zeroBucketHashes" by (simp add: zeroBucketHashes_def)
  have z: "firstByte (zeroBucketHashes ! 1) = 0" by (simp add: zeroBucketHashes_def firstByte_def)
  have up: "[0..<Suc 1] = [0, 1]" by (simp add: upt_rec)
  from first_byte_zero_bucket [OF wf i z, of "[]"] show ?thesis
    by (simp add: zeroBucketHashes_def up)
qed

section \<open>Claims about the pack header decoders\<close>



section \<open>Claims about the pack reader, the inflater and the directory scan\<close>



text \<open>Claim C10. For an inflater fresh from its constructor and any sequence of calls of
  \<open>inflate\<close> and \<open>close\<close> on it: the native resource has been released exactly once
  if \<open>close\<close> was called at all (however often) and not at all otherwise; if \<open>close\<close> was
  called, the next \<open>inflate\<close> fails with the closed error; if it was not, the next
  \<open>inflate\<close> does not raise that error, whatever else it does.\<close>

theorem inflater_closed_contract:
  assumes "runCalls zl calls (new_Inflater zl) = Some i"
  shows "released i = (if Close \<in> set calls then 1 else 0)
         \<and> (Close \<in> set calls \<longrightarrow>
              Inflater_inflate zl i reader outSize = Some (Inl InflaterClosed, i, reader))
         \<and> (Close \<notin> set calls \<longrightarrow>
              (\<forall>res i' reader'. Inflater_inflate zl i reader outSize = Some (res, i', reader')
                 \<longrightarrow> res \<noteq> Inl InflaterClosed))"
proof -
  from runCalls_invariant [OF assms]
  have z: "zlib i = None \<longleftrightarrow> Close \<in> set calls"
    and r: "released i = (if Close \<in> set calls then 1 else 0)"
    by (simp_all add: new_Inflater_def)
  show ?thesis
    using z r inflate_closed [of i zl reader outSize] inflate_open(1) [of i zl reader outSize]
    by auto
qed

text \<open>Witness for C10: one \<open>inflate\<close>, then \<open>close\<close> twice; the resource is released
  once and a further \<open>inflate\<close> fails with the closed error.\<close>

theorem inflater_closed_contract_witness:
  "runCalls storedZlib [Inflate (Reader_seek (new_Reader samplePack 1) 13) 3, Close, Close]
      (new_Inflater storedZlib) = Some \<lparr>zlib = None, released = 1\<rparr>
   \<and> Inflater_inflate storedZlib \<lparr>zlib = None, released = 1\<rparr>
        (Reader_seek (new_Reader samplePack 1) 13) 3
      = Some (Inl InflaterClosed, \<lparr>zlib = None, released = 1\<rparr>,
              Reader_seek (new_Reader samplePack 1) 13)"
proof -
  let ?r = "Reader_seek (new_Reader samplePack 1) 13"
  have run: "runCalls storedZlib [Inflate ?r 3, Close, Close] (new_Inflater storedZlib)
               = Some \<lparr>zlib = None, released = 1\<rparr>"
    by code_simp
  from inflater_closed_contract [OF run, of ?r 3] run show ?thesis by simp
qed

text \<open>Claim C2, as amended. When the scan of the pack directory reaches an index file
  that cannot be opened or does not start with the version-2 signature, and no earlier
  index held the object, \<open>getCommitFromPackFile\<close> returns \<open>null\<close> at once, whatever
  entries follow: the exception leaves the loop and is caught outside it.\<close>

theorem scan_stops_at_bad_index:
  assumes "\<not> isDirectory bad" and "endsWith (name bad) ''.idx''"
    and "openSync (name bad) = None
         \<or> (\<exists>contents. openSync (name bad) = Some contents \<and> take 8 contents \<noteq> idxV2)"
    and "scanPackDir zl depth openSync oid pre = Some (Inr None)"
  shows "getCommitFromPackFile zl depth (Some (pre @ bad # rest)) openSync oid = Some None"
proof -
  have "scanPackDir zl depth openSync oid (bad # rest) = Some (Inl ENOENT)
        \<or> scanPackDir zl depth openSync oid (bad # rest) = Some (Inl UnsupportedIDX)"
    using assms(1,2,3) by (auto simp: wrong_signature)
  then show ?thesis
    by (auto simp: getCommitFromPackFile_def scanPackDir_append [OF assms(4)])
qed

text \<open>Witness for the amended C2: \<open>a.idx\<close> lacks the signature; the lookup returns
  \<open>null\<close> although \<open>b.idx\<close> follows.\<close>

theorem scan_stops_at_bad_index_witness:
  "getCommitFromPackFile storedZlib 5
      (Some ([] @ \<lparr>name = ''a.idx'', isDirectory = False\<rparr>
                # [\<lparr>name = ''b.idx'', isDirectory = False\<rparr>]))
      sampleOpenSync sampleOid = Some None"
  by (rule scan_stops_at_bad_index) (simp_all add: endsWith_def sampleOpenSync_def idxV2_def)

text \<open>Counterexample to C2 as stated: with \<open>b.idx\<close> alone in the directory the commit
  is found in \<open>b.pack\<close>; with the malformed \<open>a.idx\<close> listed before it the lookup returns
  \<open>null\<close>: the bad pair is not skipped, the scan is abandoned.\<close>

theorem scan_does_not_skip_bad_index_counterexample:
  "getCommitFromPackFile storedZlib 5 (Some [\<lparr>name = ''b.idx'', isDirectory = False\<rparr>])
      sampleOpenSync sampleOid = Some (Some [0x61, 0x62, 0x63])
   \<and> getCommitFromPackFile storedZlib 5
        (Some [\<lparr>name = ''a.idx'', isDirectory = False\<rparr>, \<lparr>name = ''b.idx'', isDirectory = False\<rparr>])
        sampleOpenSync sampleOid = Some None"
proof -
  have bad: "searchGitIndex [0x00, 0x01, 0x02] sampleOid = Inl UnsupportedIDX"
    by (rule wrong_signature) (simp add: idxV2_def)
  show ?thesis
    by (simp add: getCommitFromPackFile_def endsWith_def sampleOpenSync_def packFileOf_def
        sample_lookup sample_read bad)
qed

end
